theory Spec2Isabelle
  imports Main "HOL-Library.Sublist" "HOL-Library.AList"
begin

section \<open>Strings and constants of latexmd.py\<close>

text \<open>
  A Python \<open>str\<close> is modelled as a \<open>string\<close>; one \<open>char\<close> stands for one code point
  below 256, which covers every character the module itself writes (its delimiters
  are \<open>%\<close>, \<open>%%\<close> and the two code points U+00C2 U+00A3).
\<close>

abbreviation bslash :: char where "bslash \<equiv> CHR 0x5C"
abbreviation newline :: char where "newline \<equiv> CHR 0x0A"

definition delim_text :: string where "delim_text = ''%''"
definition delim_math :: string where "delim_math = [CHR 0xC2, CHR 0xA3]"
definition delim_preamble :: string where "delim_preamble = ''%%''"

section \<open>The compiled pattern of \<open>build_regexp\<close>\<close>

text \<open>
  \<open>build_regexp delim\<close> compiles \<open>(?<!\\)D(.+?)(?<!\\)D\<close> with DOTALL, where \<open>D\<close> is the
  escaped (hence literal) delimiter, which is never empty. \<open>close_at d p s\<close> extends the
  lazy group \<open>(.+?)\<close> one character at a time: \<open>p\<close> is the last character already taken
  into the group, and the closing delimiter is accepted at the first place where the
  lookbehind sees no backslash. The result is the rest of the group and the text after the match.
\<close>

fun close_at :: "string \<Rightarrow> char \<Rightarrow> string \<Rightarrow> (string \<times> string) option" where
  "close_at d p [] = None"
| "close_at d p (c # cs) =
     (if p \<noteq> bslash \<and> prefix d (c # cs) then Some ([], drop (length d) (c # cs))
      else map_option (\<lambda>(g, r). (c # g, r)) (close_at d c cs))"

text \<open>The group takes at least one character (\<open>.+?\<close>, and \<open>.\<close> matches a newline too).\<close>

definition group_close :: "string \<Rightarrow> string \<Rightarrow> (string \<times> string) option" where
  "group_close d s =
     (case s of [] \<Rightarrow> None
      | c # cs \<Rightarrow> map_option (\<lambda>(g, r). (c # g, r)) (close_at d c cs))"

text \<open>
  \<open>match_here d esc s\<close> tries the pattern at the start of \<open>s\<close>; \<open>esc\<close> says that the
  character before \<open>s\<close> is a backslash (the opening lookbehind).
\<close>

definition match_here :: "string \<Rightarrow> bool \<Rightarrow> string \<Rightarrow> (string \<times> string) option" where
  "match_here d esc s =
     (if \<not> esc \<and> prefix d s then group_close d (drop (length d) s) else None)"

text \<open>
  \<open>search d esc s\<close> is the leftmost match in \<open>s\<close>: the text before it, the group and the
  text after it.
\<close>

fun search :: "string \<Rightarrow> bool \<Rightarrow> string \<Rightarrow> (string \<times> string \<times> string) option" where
  "search d esc [] = None"
| "search d esc (c # cs) =
     (case match_here d esc (c # cs) of
        Some (g, r) \<Rightarrow> Some ([], g, r)
      | None \<Rightarrow> map_option (\<lambda>(p, g, r). (c # p, g, r)) (search d (c = bslash) cs))"

lemma close_at_decomp:
  "close_at d p s = Some (g, r) \<Longrightarrow> s = g @ d @ r"
proof (induction s arbitrary: p g)
  case Nil
  then show ?case by simp
next
  case (Cons c cs)
  show ?case
  proof (cases "p \<noteq> bslash \<and> prefix d (c # cs)")
    case True
    with Cons.prems have "g = []" "r = drop (length d) (c # cs)" by auto
    moreover from True have "c # cs = d @ drop (length d) (c # cs)"
      by (metis append_eq_conv_conj prefix_def)
    ultimately show ?thesis by simp
  next
    case False
    with Cons.prems obtain g' where "close_at d c cs = Some (g', r)" "g = c # g'"
      by (auto split: if_splits)
    with Cons.IH show ?thesis by auto
  qed
qed

lemma group_close_decomp:
  "group_close d s = Some (g, r) \<Longrightarrow> s = g @ d @ r \<and> g \<noteq> []"
  by (auto simp: group_close_def split: list.splits dest: close_at_decomp)

lemma match_here_decomp:
  "match_here d esc s = Some (g, r) \<Longrightarrow> s = d @ g @ d @ r \<and> g \<noteq> [] \<and> \<not> esc"
proof -
  assume a: "match_here d esc s = Some (g, r)"
  then have p: "\<not> esc" "prefix d s" and gc: "group_close d (drop (length d) s) = Some (g, r)"
    by (auto simp: match_here_def split: if_splits)
  from p have "s = d @ drop (length d) s" by (metis append_eq_conv_conj prefix_def)
  with group_close_decomp [OF gc] p show ?thesis by metis
qed

lemma search_decomp:
  "search d esc s = Some (p, g, r) \<Longrightarrow> s = p @ d @ g @ d @ r \<and> g \<noteq> []"
proof (induction s arbitrary: esc p)
  case Nil
  then show ?case by simp
next
  case (Cons c cs)
  show ?case
  proof (cases "match_here d esc (c # cs)")
    case (Some gr)
    with Cons.prems have "match_here d esc (c # cs) = Some (g, r)" "p = []"
      by (auto split: prod.splits)
    then show ?thesis using match_here_decomp by fastforce
  next
    case None
    with Cons.prems obtain p' where "search d (c = bslash) cs = Some (p', g, r)" "p = c # p'"
      by auto
    with Cons.IH show ?thesis by auto
  qed
qed

lemma search_rest_shorter:
  "search d esc s = Some (p, g, r) \<Longrightarrow> length r < length s"
  by (drule search_decomp) (cases g, auto)

text \<open>
  \<open>findall\<close> returns the groups of the successive non-overlapping matches. The scan resumes
  right after a match, where the lookbehind sees the last character of the closing delimiter.
\<close>

function findall_from :: "string \<Rightarrow> bool \<Rightarrow> string \<Rightarrow> string list" where
  "findall_from d esc s =
     (case search d esc s of
        None \<Rightarrow> []
      | Some (p, g, r) \<Rightarrow> g # findall_from d (last d = bslash) r)"
  by pat_completeness auto
termination
  by (relation "measure (\<lambda>(d, esc, s). length s)") (auto dest: search_rest_shorter)

definition findall :: "string \<Rightarrow> string \<Rightarrow> string list" where
  "findall d s = findall_from d False s"

text \<open>\<open>pattern.sub(repl, s, 1)\<close> for a replacement without backslash: the first match is replaced.\<close>

definition sub1 :: "string \<Rightarrow> string \<Rightarrow> string \<Rightarrow> string" where
  "sub1 d repl s =
     (case search d False s of
        None \<Rightarrow> s
      | Some (p, g, r) \<Rightarrow> p @ repl @ r)"


text \<open>
  The positions of the matches that \<open>findall\<close> walks through: for each match the offset of
  its opening delimiter and the offset of its closing delimiter (what \<open>finditer\<close> would
  report), used to state where in the page an extracted group sits.
\<close>

function match_spans :: "string \<Rightarrow> bool \<Rightarrow> nat \<Rightarrow> string \<Rightarrow> (nat \<times> nat) list" where
  "match_spans d esc off s =
     (case search d esc s of
        None \<Rightarrow> []
      | Some (p, g, r) \<Rightarrow>
          (off + length p, off + length p + length d + length g)
            # match_spans d (last d = bslash) (off + length p + length d + length g + length d) r)"
  by pat_completeness auto
termination
  by (relation "measure (\<lambda>(d, esc, off, s). length s)") (auto dest: search_rest_shorter)

declare match_spans.simps [simp del]
declare findall_from.simps [simp del]

text \<open>The group between the two delimiters of a span.\<close>

definition group_at :: "string \<Rightarrow> string \<Rightarrow> nat \<times> nat \<Rightarrow> string" where
  "group_at d s ij = take (snd ij - fst ij - length d) (drop (fst ij + length d) s)"

text \<open>Position \<open>i\<close> of the text has a backslash right before it.\<close>

definition escaped_at :: "string \<Rightarrow> nat \<Rightarrow> bool" where
  "escaped_at s i = (0 < i \<and> i \<le> length s \<and> s ! (i - 1) = bslash)"

text \<open>The delimiter occurs at position \<open>i\<close>.\<close>

definition delim_at :: "string \<Rightarrow> string \<Rightarrow> nat \<Rightarrow> bool" where
  "delim_at d s i = (take (length d) (drop i s) = d)"

lemma close_at_last:
  "close_at d p s = Some (g, r) \<Longrightarrow> last (p # g) \<noteq> bslash"
proof (induction s arbitrary: p g)
  case Nil
  then show ?case by simp
next
  case (Cons c cs)
  show ?case
  proof (cases "p \<noteq> bslash \<and> prefix d (c # cs)")
    case True
    with Cons.prems show ?thesis by auto
  next
    case False
    with Cons.prems obtain g' where "close_at d c cs = Some (g', r)" "g = c # g'"
      by (auto split: if_splits)
    with Cons.IH show ?thesis by auto
  qed
qed

lemma group_close_last:
  "group_close d s = Some (g, r) \<Longrightarrow> last g \<noteq> bslash"
  by (auto simp: group_close_def split: list.splits dest: close_at_last)

lemma match_here_last:
  "match_here d esc s = Some (g, r) \<Longrightarrow> last g \<noteq> bslash"
  by (auto simp: match_here_def split: if_splits dest: group_close_last)

lemma search_bounds:
  "search d esc s = Some (p, g, r) \<Longrightarrow>
     last g \<noteq> bslash \<and> (if p = [] then \<not> esc else last p \<noteq> bslash)"
proof (induction s arbitrary: esc p)
  case Nil
  then show ?case by simp
next
  case (Cons c cs)
  show ?case
  proof (cases "match_here d esc (c # cs)")
    case (Some gr)
    with Cons.prems have m: "match_here d esc (c # cs) = Some (g, r)" "p = []"
      by (auto split: prod.splits)
    then show ?thesis using match_here_decomp match_here_last by fastforce
  next
    case None
    with Cons.prems obtain p' where s: "search d (c = bslash) cs = Some (p', g, r)" "p = c # p'"
      by auto
    from Cons.IH [OF s(1)] s(2) show ?thesis by (auto split: if_splits)
  qed
qed


text \<open>
  A span is a pair of delimiter occurrences inside the text, around a non-empty group,
  neither of them with a backslash right before it.
\<close>

definition span_ok :: "string \<Rightarrow> string \<Rightarrow> nat \<times> nat \<Rightarrow> bool" where
  "span_ok d s ij =
     (fst ij + length d < snd ij \<and> snd ij + length d \<le> length s \<and>
      delim_at d s (fst ij) \<and> delim_at d s (snd ij) \<and>
      \<not> escaped_at s (fst ij) \<and> \<not> escaped_at s (snd ij))"

lemma escaped_at_append:
  "escaped_at (xs @ ys) (length xs) \<longleftrightarrow> xs \<noteq> [] \<and> last xs = bslash"
  by (cases "xs = []") (auto simp: escaped_at_def nth_append last_conv_nth)

lemma delim_at_append:
  "delim_at d (xs @ d @ ys) (length xs)"
  by (simp add: delim_at_def)

lemma span_ok_first:
  assumes "d \<noteq> []" "g \<noteq> []" "last g \<noteq> bslash"
    and "\<not> (u \<noteq> [] \<and> last u = bslash)"
  shows "span_ok d (u @ d @ g @ d @ r) (length u, length u + length d + length g)"
proof -
  have 1: "delim_at d (u @ d @ g @ d @ r) (length u)" by (rule delim_at_append)
  have "delim_at d ((u @ d @ g) @ d @ r) (length (u @ d @ g))" by (rule delim_at_append)
  then have 2: "delim_at d (u @ d @ g @ d @ r) (length u + length d + length g)"
    by (simp add: add.assoc)
  have 3: "\<not> escaped_at (u @ d @ g @ d @ r) (length u)"
    unfolding escaped_at_append using assms(4) by simp
  have "\<not> escaped_at ((u @ d @ g) @ d @ r) (length (u @ d @ g))"
    unfolding escaped_at_append using assms(2,3) by simp
  then have 4: "\<not> escaped_at (u @ d @ g @ d @ r) (length u + length d + length g)"
    by (simp add: add.assoc)
  show ?thesis using 1 2 3 4 assms(1,2) by (simp add: span_ok_def)
qed

lemma group_at_first:
  "group_at d (u @ d @ g @ d @ r) (length u, length u + length d + length g) = g"
  by (simp add: group_at_def)

lemma match_spans_sound:
  assumes "d \<noteq> []"
  shows "esc = (pre \<noteq> [] \<and> last pre = bslash) \<Longrightarrow>
         (\<forall>ij \<in> set (match_spans d esc (length pre) s). length pre \<le> fst ij \<and> span_ok d (pre @ s) ij) \<and>
         findall_from d esc s = map (group_at d (pre @ s)) (match_spans d esc (length pre) s) \<and>
         sorted_wrt (\<lambda>a b. snd a + length d \<le> fst b) (match_spans d esc (length pre) s)"
proof (induction "length s" arbitrary: s pre esc rule: less_induct)
  case less
  show ?case
  proof (cases "search d esc s")
    case None
    then show ?thesis by (simp add: match_spans.simps [of d esc] findall_from.simps [of d esc])
  next
    case (Some pgr)
    then obtain p g r where sr: "search d esc s = Some (p, g, r)" by (cases pgr) auto
    from search_decomp [OF sr] have s: "s = p @ d @ g @ d @ r" and g: "g \<noteq> []" by auto
    from search_bounds [OF sr] have lg: "last g \<noteq> bslash"
      and lp: "if p = [] then \<not> esc else last p \<noteq> bslash" by auto
    let ?u = "pre @ p"
    let ?pre' = "pre @ p @ d @ g @ d"
    let ?rest = "match_spans d (last d = bslash) (length ?pre') r"
    have nu: "\<not> (?u \<noteq> [] \<and> last ?u = bslash)"
      using lp less.prems by (auto split: if_splits)
    have first: "span_ok d (pre @ s) (length ?u, length ?u + length d + length g)"
      using span_ok_first [OF assms g lg nu, of r] s by simp
    have gfirst: "group_at d (pre @ s) (length ?u, length ?u + length d + length g) = g"
      using group_at_first [of d ?u g r] s by simp
    have len: "length r < length s" using sr by (rule search_rest_shorter)
    have esc': "(last d = bslash) = (?pre' \<noteq> [] \<and> last ?pre' = bslash)"
      using assms by simp
    have page: "?pre' @ r = pre @ s" using s by simp
    note IH = less.hyps [OF len esc', unfolded page]
    have unf: "match_spans d esc (length pre) s =
        (length ?u, length ?u + length d + length g) # ?rest"
      using sr by (simp add: match_spans.simps [of d esc "length pre" s] add.assoc)
    have fa: "findall_from d esc s = g # findall_from d (last d = bslash) r"
      using sr by (simp add: findall_from.simps [of d esc s])
    have c1: "\<forall>ij \<in> set (match_spans d esc (length pre) s). length pre \<le> fst ij \<and> span_ok d (pre @ s) ij"
      using IH first unfolding unf by auto
    have c2: "findall_from d esc s = map (group_at d (pre @ s)) (match_spans d esc (length pre) s)"
      using IH gfirst unfolding unf fa by simp
    have c3: "sorted_wrt (\<lambda>a b. snd a + length d \<le> fst b) (match_spans d esc (length pre) s)"
      using IH unfolding unf by auto
    from c1 c2 c3 show ?thesis by blast
  qed
qed


lemma close_at_exact:
  "d \<noteq> [] \<Longrightarrow> hd d \<notin> set g \<Longrightarrow> last (p # g) \<noteq> bslash \<Longrightarrow>
   close_at d p (g @ d @ r) = Some (g, r)"
proof (induction g arbitrary: p)
  case Nil
  then show ?case by (cases d) auto
next
  case (Cons c g)
  from Cons.prems have "\<not> prefix d (c # g @ d @ r)"
    by (cases d) auto
  moreover from Cons.prems have "close_at d c (g @ d @ r) = Some (g, r)"
    by (intro Cons.IH) auto
  ultimately show ?case by simp
qed

lemma group_close_exact:
  "d \<noteq> [] \<Longrightarrow> g \<noteq> [] \<Longrightarrow> hd d \<notin> set g \<Longrightarrow> last g \<noteq> bslash \<Longrightarrow>
   group_close d (g @ d @ r) = Some (g, r)"
  by (cases g) (auto simp: group_close_def close_at_exact)

lemma match_here_exact:
  "d \<noteq> [] \<Longrightarrow> g \<noteq> [] \<Longrightarrow> hd d \<notin> set g \<Longrightarrow> last g \<noteq> bslash \<Longrightarrow>
   match_here d False (d @ g @ d @ r) = Some (g, r)"
  by (simp add: match_here_def group_close_exact)

text \<open>
  Lines 155-156 of \<open>run\<close>: the work list pairs each group with its pattern (named here by
  its delimiter) and its mode flag, text mode first.
\<close>

definition tex_expr :: "string \<Rightarrow> (string \<times> bool \<times> string) list" where
  "tex_expr page =
     map (\<lambda>x. (delim_text, False, x)) (findall delim_text page) @
     map (\<lambda>x. (delim_math, True, x)) (findall delim_math page)"

lemma escaped_math_example:
  assumes "g \<noteq> []" "CHR 0xC2 \<notin> set g" "last g \<noteq> bslash"
  shows "findall delim_math (bslash # delim_math @ delim_math @ g @ delim_math) = [g]"
proof -
  have m: "match_here delim_math False (delim_math @ g @ delim_math @ []) = Some (g, [])"
    using assms by (intro match_here_exact) (auto simp: delim_math_def)
  have "search delim_math False (bslash # delim_math @ delim_math @ g @ delim_math) = Some (bslash # delim_math, g, [])"
    using m by (simp add: delim_math_def match_here_def)
  then show ?thesis
    by (simp add: findall_def findall_from.simps [of delim_math])
qed

lemma escaped_text_example:
  assumes "g \<noteq> []" "CHR ''%'' \<notin> set g" "last g \<noteq> bslash"
  shows "findall delim_text (bslash # delim_text @ delim_text @ g @ delim_text) = [g]"
proof -
  have m: "match_here delim_text False (delim_text @ g @ delim_text @ []) = Some (g, [])"
    using assms by (intro match_here_exact) (auto simp: delim_text_def)
  have "search delim_text False (bslash # delim_text @ delim_text @ g @ delim_text) = Some (bslash # delim_text, g, [])"
    using m by (simp add: delim_text_def match_here_def)
  then show ?thesis
    by (simp add: findall_def findall_from.simps [of delim_text])
qed

section \<open>Python string helpers\<close>

text \<open>\<open>sep.join(xs)\<close>.\<close>

fun join :: "string \<Rightarrow> string list \<Rightarrow> string" where
  "join sep [] = []"
| "join sep [x] = x"
| "join sep (x # y # ys) = x @ sep @ join sep (y # ys)"

text \<open>\<open>s.split(c)\<close> for a one-character separator: every occurrence splits, so the result
  is never empty and \<open>''''.split(c)\<close> is \<open>['''']\<close>. \<open>cur\<close> is the piece being read.\<close>

fun split_acc :: "char \<Rightarrow> string \<Rightarrow> string \<Rightarrow> string list" where
  "split_acc sep cur [] = [cur]"
| "split_acc sep cur (c # cs) =
     (if c = sep then cur # split_acc sep [] cs else split_acc sep (cur @ [c]) cs)"

definition split :: "char \<Rightarrow> string \<Rightarrow> string list" where
  "split sep s = split_acc sep [] s"

text \<open>
  A file opened in text mode is read with universal newlines: a carriage return, alone
  or followed by a line feed, arrives as one line feed.
\<close>

abbreviation creturn :: char where "creturn \<equiv> CHR 0x0D"

fun universal_newlines :: "string \<Rightarrow> string" where
  "universal_newlines [] = []"
| "universal_newlines [c] = (if c = creturn then [newline] else [c])"
| "universal_newlines (c # c' # cs) =
     (if c = creturn
      then (if c' = newline then newline # universal_newlines cs
            else newline # universal_newlines (c' # cs))
      else c # universal_newlines (c' # cs))"

text \<open>The lines of a text that has only line feeds as line ends, each with its line end; a
  last line without line end is kept, and the empty text has no line.\<close>

fun lines_acc :: "string \<Rightarrow> string \<Rightarrow> string list" where
  "lines_acc cur [] = (if cur = [] then [] else [cur])"
| "lines_acc cur (c # cs) =
     (if c = newline then (cur @ [c]) # lines_acc [] cs else lines_acc (cur @ [c]) cs)"

text \<open>\<open>f.readlines()\<close> for a file opened in text mode, from the characters stored in the file.\<close>

definition readlines :: "string \<Rightarrow> string list" where
  "readlines s = lines_acc [] (universal_newlines s)"

text \<open>\<open>line.strip("\n")\<close> removes the newlines at both ends.\<close>

definition strip_nl :: "string \<Rightarrow> string" where
  "strip_nl s = rev (dropWhile (\<lambda>c. c = newline) (rev (dropWhile (\<lambda>c. c = newline) s)))"

text \<open>\<open>s.replace(old, new)\<close> for a non-empty \<open>old\<close>: the non-overlapping occurrences, left to
  right.\<close>

function str_replace :: "string \<Rightarrow> string \<Rightarrow> string \<Rightarrow> string" where
  "str_replace old new [] = []"
| "str_replace old new (c # cs) =
     (if old \<noteq> [] \<and> prefix old (c # cs)
      then new @ str_replace old new (drop (length old) (c # cs))
      else c # str_replace old new cs)"
  by pat_completeness auto
termination
  by (relation "measure (\<lambda>(old, new, s). length s)") (auto simp: neq_Nil_conv)

text \<open>\<open>str(n)\<close> for the running counter.\<close>

definition digit_char :: "nat \<Rightarrow> char" where
  "digit_char n = char_of (48 + n)"

function str_nat :: "nat \<Rightarrow> string" where
  "str_nat n = (if n < 10 then [digit_char n] else str_nat (n div 10) @ [digit_char (n mod 10)])"
  by pat_completeness auto
termination
  by (relation "measure id") auto

declare str_nat.simps [simp del]

section \<open>Module constants\<close>

abbreviation squote :: char where "squote \<equiv> CHR 0x27"

text \<open>\<open>IMG_EXPR % (alt, id, data)\<close> and \<open>INLINE_IMG_EXPR % (alt, id, data)\<close>.\<close>

definition IMG_EXPR :: "string \<Rightarrow> string \<Rightarrow> string \<Rightarrow> string" where
  "IMG_EXPR alt ident data =
     ''<div class='' @ [squote] @ ''latex-box math-false'' @ [squote] @
     ''><img class='' @ [squote, squote] @ '' alt='' @ [squote] @ alt @ [squote] @
     '' id='' @ [squote] @ ident @ [squote] @
     '' src='' @ [squote] @ ''data:image/png;base64,'' @ data @ [squote] @ ''></div>''"

definition INLINE_IMG_EXPR :: "string \<Rightarrow> string \<Rightarrow> string \<Rightarrow> string" where
  "INLINE_IMG_EXPR alt ident data =
     ''<img class='' @ [squote] @ ''math-true'' @ [squote] @
     '' alt='' @ [squote] @ alt @ [squote] @
     '' id='' @ [squote] @ ident @ [squote] @
     '' src='' @ [squote] @ ''data:image/png;base64,'' @ data @ [squote] @ ''>''"

definition ERROR_MARKER :: string where
  "ERROR_MARKER = ''<p>ERROR</p>''"

text \<open>The class attribute \<open>tex_preamble\<close> (a raw string: its backslashes are literal).\<close>

definition base_preamble :: string where
  "base_preamble =
     [bslash] @ ''documentclass{article}'' @ [newline] @
     [bslash] @ ''usepackage{amsmath}'' @ [newline] @
     [bslash] @ ''usepackage{amsthm}'' @ [newline] @
     [bslash] @ ''usepackage{amssymb}'' @ [newline] @
     [bslash] @ ''usepackage{bm}'' @ [newline] @
     [bslash] @ ''usepackage{parskip}'' @ [newline] @
     [bslash] @ ''usepackage[usenames,dvipsnames]{color}'' @ [newline] @
     [bslash] @ ''pagestyle{empty}'' @ [newline]"

section \<open>The world outside the module\<close>

text \<open>
  Exceptions that the module raises or meets. \<open>CompileFailed\<close> and \<open>ConvertFailed\<close> are the
  two \<open>Exception\<close>s raised by \<open>_latex_to_base64\<close>; \<open>ValueError\<close> is the failed unpacking of a
  cache line; \<open>OSError\<close> is a failed \<open>open\<close>; \<open>ReError\<close> is \<open>re.error\<close>.
\<close>

datatype exn = ValueError | OSError | CompileFailed | ConvertFailed | ReError

text \<open>
  The file \<open>latex.cache\<close>: missing, not openable (\<open>open\<close> raises for \<open>r+\<close> and for \<open>a\<close>), or the
  characters stored in it. Reading translates the line ends (see \<open>readlines\<close>); writing
  stores a line feed as it is, as on every system whose line separator is the line feed.
\<close>

datatype cache_file = Missing | Denied | Text string

text \<open>
  What the module calls and does not define: the \<open>latex\<close> and \<open>dvipng\<close> commands (exit status
  for the document written to the temporary file), the base64 text of the PNG that
  \<open>dvipng\<close> wrote for that document, \<open>hashlib.md5(...).hexdigest()\<close>, and the template parser
  that \<open>re\<close> applies to a replacement string containing a backslash (it raises or gives
  the expansion as a function of the group).
\<close>

record tools =
  latex :: "string \<Rightarrow> int"
  dvipng :: "string \<Rightarrow> int"
  png_base64 :: "string \<Rightarrow> string"
  md5_hex :: "string \<Rightarrow> string"
  parse_template :: "string \<Rightarrow> exn + (string \<Rightarrow> string)"

text \<open>One entry per subprocess started, with the document it was started on.\<close>

datatype call = Latex string | Dvipng string

text \<open>The instance: the class-level dict \<open>cached\<close>, \<open>tex_preamble\<close> and
  \<open>config[("general", "preamble")]\<close>.\<close>

record preprocessor =
  cached :: "string \<rightharpoonup> string"
  tex_preamble :: string
  general_preamble :: string

section \<open>\<open>__init__\<close>: loading the cache\<close>

text \<open>
  The loop over \<open>readlines()\<close>. \<open>key, val = line.strip("\n").split(" ")\<close> raises \<open>ValueError\<close>
  unless the split has exactly two pieces; the entries stored before stay in the dict.
\<close>

fun load_lines :: "string list \<Rightarrow> (string \<rightharpoonup> string) \<Rightarrow> exn option \<times> (string \<rightharpoonup> string)" where
  "load_lines [] c = (None, c)"
| "load_lines (l # ls) c =
     (case split CHR '' '' (strip_nl l) of
        [k, v] \<Rightarrow> load_lines ls (c(k \<mapsto> v))
      | _ \<Rightarrow> (Some ValueError, c))"

text \<open>The body of the \<open>try\<close>.\<close>

definition load_cache :: "cache_file \<Rightarrow> (string \<rightharpoonup> string) \<Rightarrow> exn option \<times> (string \<rightharpoonup> string)" where
  "load_cache f c =
     (case f of
        Missing \<Rightarrow> (Some OSError, c)
      | Denied \<Rightarrow> (Some OSError, c)
      | Text s \<Rightarrow> load_lines (readlines s) c)"

text \<open>\<open>__init__\<close>: \<open>except Exception: pass\<close> drops the exception; \<open>c\<close> is the class-level dict as
  the constructor finds it. The configuration is the hard-coded one.\<close>

definition init :: "cache_file \<Rightarrow> (string \<rightharpoonup> string) \<Rightarrow> preprocessor" where
  "init f c =
     \<lparr>cached = snd (load_cache f c), tex_preamble = base_preamble, general_preamble = []\<rparr>"

section \<open>\<open>_latex_to_base64\<close>\<close>

text \<open>
  The text written to the temporary file. Of the work on temporary files only the two
  subprocesses and their exit statuses are modelled; every exception inside
  \<open>_latex_to_base64\<close> is caught by \<open>run\<close> in the same way.
\<close>

definition document :: "string \<Rightarrow> string \<Rightarrow> bool \<Rightarrow> string" where
  "document preamble tex math_mode =
     preamble @ (if math_mode then ''$'' @ tex @ ''$'' else tex) @
     [newline, bslash] @ ''end{document}''"

definition latex_to_base64 :: "tools \<Rightarrow> string \<Rightarrow> string \<Rightarrow> bool \<Rightarrow> call list \<times> (exn + string)" where
  "latex_to_base64 T preamble tex math_mode =
     (let doc = document preamble tex math_mode in
      if latex T doc \<noteq> 0 then ([Latex doc], Inl CompileFailed)
      else if dvipng T doc \<noteq> 0 then ([Latex doc, Dvipng doc], Inl ConvertFailed)
      else ([Latex doc, Dvipng doc], Inr (png_base64 T doc)))"

section \<open>\<open>run\<close>\<close>

text \<open>
  \<open>pattern.sub(repl, page, 1)\<close>. A replacement without backslash is literal. Otherwise
  \<open>re\<close> first parses it as a template, which may raise before any search is made.
\<close>

definition re_sub :: "tools \<Rightarrow> string \<Rightarrow> string \<Rightarrow> string \<Rightarrow> exn + string" where
  "re_sub T d repl s =
     (if bslash \<notin> set repl then Inr (sub1 d repl s)
      else case parse_template T repl of
        Inl e \<Rightarrow> Inl e
      | Inr expand \<Rightarrow>
          Inr (case search d False s of
                 None \<Rightarrow> s
               | Some (p, g, r) \<Rightarrow> p @ expand g @ r))"

text \<open>
  Lines 146-152: each preamble fragment is appended to \<open>tex_preamble\<close> with a newline and
  one match of the preamble pattern is deleted from the page.
\<close>

fun absorb_preambles :: "string list \<Rightarrow> string \<times> string \<Rightarrow> string \<times> string" where
  "absorb_preambles [] (tp, page) = (tp, page)"
| "absorb_preambles (p # ps) (tp, page) =
     absorb_preambles ps (tp @ p @ [newline], sub1 delim_preamble [] page)"

text \<open>The local variables of the loop of lines 163-190, and the subprocesses started so far.\<close>

record rw_state =
  page :: string
  new_cache :: "(string \<times> string) list"
  idn :: nat
  calls :: "call list"

text \<open>Lines 180-190: the text put in place of the match.\<close>

definition replacement :: "bool \<Rightarrow> string \<Rightarrow> nat \<Rightarrow> string \<Rightarrow> string" where
  "replacement math_mode simp_expr i data =
     (if data \<noteq> []
      then (if math_mode
            then INLINE_IMG_EXPR simp_expr (simp_expr @ ''_'' @ str_nat i) data
            else IMG_EXPR simp_expr (simp_expr @ ''_'' @ str_nat i) data)
      else ''<p>'' @ ''ERROR'' @ ''</p>'')"

text \<open>
  Lines 166-177: the payload for one expression, the subprocesses it started and the
  new value of \<open>new_cache\<close>. A hash found in \<open>self.cached\<close> starts nothing; an exception of
  \<open>_latex_to_base64\<close> is caught and leaves the empty payload.
\<close>

definition obtain_data ::
  "tools \<Rightarrow> (string \<rightharpoonup> string) \<Rightarrow> string \<Rightarrow> bool \<Rightarrow> string \<Rightarrow> (string \<times> string) list
     \<Rightarrow> call list \<times> string \<times> (string \<times> string) list" where
  "obtain_data T cache preamble math_mode expr nc =
     (case cache (md5_hex T expr) of
        Some v \<Rightarrow> ([], v, nc)
      | None \<Rightarrow>
          (case latex_to_base64 T preamble expr math_mode of
             (cs, Inr v) \<Rightarrow> (cs, v, AList.update (md5_hex T expr) v nc)
           | (cs, Inl e) \<Rightarrow> (cs, [], nc)))"

text \<open>
  One turn of the loop; the second component is an exception that leaves \<open>run\<close> (only
  \<open>sub\<close> can raise one here). The \<open>print\<close> of the hash and the assignment to \<open>expr\<close> in line 178,
  whose value is never read, leave no trace in the state.
\<close>

definition step ::
  "tools \<Rightarrow> (string \<rightharpoonup> string) \<Rightarrow> string \<Rightarrow> string \<times> bool \<times> string \<Rightarrow> rw_state
     \<Rightarrow> rw_state \<times> exn option" where
  "step T cache preamble e st =
     (case e of (reg, math_mode, expr) \<Rightarrow>
        (case obtain_data T cache preamble math_mode expr (new_cache st) of (cs, data, nc) \<Rightarrow>
           (let i = idn st + 1;
                st1 = st\<lparr>new_cache := nc, idn := i, calls := calls st @ cs\<rparr>
            in case re_sub T reg (replacement math_mode (md5_hex T expr) i data) (page st) of
                 Inl x \<Rightarrow> (st1, Some x)
               | Inr pg \<Rightarrow> (st1\<lparr>page := pg\<rparr>, None))))"

fun rewrite ::
  "tools \<Rightarrow> (string \<rightharpoonup> string) \<Rightarrow> string \<Rightarrow> (string \<times> bool \<times> string) list \<Rightarrow> rw_state
     \<Rightarrow> rw_state \<times> exn option" where
  "rewrite T cache preamble [] st = (st, None)"
| "rewrite T cache preamble (e # es) st =
     (case step T cache preamble e st of
        (st', Some x) \<Rightarrow> (st', Some x)
      | (st', None) \<Rightarrow> rewrite T cache preamble es st')"

text \<open>Lines 192-199: the four replacements, in this order.\<close>

definition unescape :: "string \<Rightarrow> string" where
  "unescape pg =
     foldl (\<lambda>pg tok. str_replace (bslash # tok) tok pg) pg
       [delim_preamble, delim_text, delim_math, [bslash]]"

text \<open>Lines 201-205: \<open>open('latex.cache', 'a')\<close> creates a missing file.\<close>

definition cache_lines :: "(string \<times> string) list \<Rightarrow> string" where
  "cache_lines nc = concat (map (\<lambda>(k, v). k @ '' '' @ v @ [newline]) nc)"

definition append_cache :: "cache_file \<Rightarrow> string \<Rightarrow> exn + cache_file" where
  "append_cache f txt =
     (case f of
        Missing \<Rightarrow> Inr (Text txt)
      | Denied \<Rightarrow> Inl OSError
      | Text s \<Rightarrow> Inr (Text (s @ txt)))"

text \<open>
  What a call of \<open>run\<close> leaves: the returned lines or the exception that left it, the
  instance, the cache file and the subprocesses started.
\<close>

record run_result =
  outcome :: "exn + string list"
  instance_after :: preprocessor
  file_after :: cache_file
  started :: "call list"

text \<open>
  Lines 154-208: everything after the preamble phase, on an instance whose \<open>tex_preamble\<close>
  is final for this call and on the page without its preamble regions.
\<close>

definition run_expressions :: "tools \<Rightarrow> preprocessor \<Rightarrow> cache_file \<Rightarrow> string \<Rightarrow> run_result" where
  "run_expressions T self f page1 =
     (if tex_expr page1 = []
      then \<lparr>outcome = Inr (split newline page1), instance_after = self,
            file_after = f, started = []\<rparr>
      else
        (case rewrite T (cached self) (tex_preamble self) (tex_expr page1)
                \<lparr>page = page1, new_cache = [], idn = 0, calls = []\<rparr> of
           (st, Some x) \<Rightarrow>
             \<lparr>outcome = Inl x, instance_after = self, file_after = f, started = calls st\<rparr>
         | (st, None) \<Rightarrow>
             (case append_cache f (cache_lines (new_cache st)) of
                Inl x \<Rightarrow>
                  \<lparr>outcome = Inl x, instance_after = self, file_after = f,
                    started = calls st\<rparr>
              | Inr f' \<Rightarrow>
                  \<lparr>outcome = Inr (split newline (unescape (page st))), instance_after = self,
                    file_after = f', started = calls st\<rparr>)))"

text \<open>Lines 141-152, then the rest.\<close>

definition run :: "tools \<Rightarrow> preprocessor \<Rightarrow> cache_file \<Rightarrow> string list \<Rightarrow> run_result" where
  "run T self f lns =
     (let page0 = join [newline] lns in
      case absorb_preambles (findall delim_preamble page0)
             (tex_preamble self @ general_preamble self, page0) of (tp, page1) \<Rightarrow>
        run_expressions T
          (self\<lparr>tex_preamble := tp @ [newline, bslash] @ ''begin{document}'' @ [newline]\<rparr>)
          f page1)"

section \<open>A small world for concrete runs\<close>

text \<open>
  A tool set used to evaluate \<open>run\<close> on concrete documents: \<open>latex\<close> exits with status 1 on
  every document that contains a dollar sign (so every math-mode expression fails) and
  with 0 otherwise, \<open>dvipng\<close> succeeds and the PNG encodes to a fixed text. The digests
  are the MD5 digests of the expressions that the examples use.
\<close>

definition example_md5 :: "string \<Rightarrow> string" where
  "example_md5 s =
     (if s = ''a'' then ''0cc175b9c0f1b6a831c399e269772661''
      else if s = ''b'' then ''92eb5ffee6ae2fec3ad71c777531578f''
      else if s = ''x'' then ''9dd4e461268c8034f5c8564e155c67a6''
      else if s = ''a '' @ delim_math @ ''b'' @ delim_math @ '' c''
        then ''2b7fdd758229fb43d878376e4a9be1ec''
      else ''d41d8cd98f00b204e9800998ecf8427e'')"

definition example_tools :: tools where
  "example_tools =
     \<lparr>latex = (\<lambda>doc. if CHR ''$'' \<in> set doc then 1 else 0),
      dvipng = (\<lambda>doc. 0),
      png_base64 = (\<lambda>doc. ''iVBORw0KGgo=''),
      md5_hex = example_md5,
      parse_template = (\<lambda>repl. Inl ReError)\<rparr>"

section \<open>Notions used to state the properties\<close>

text \<open>The value of \<open>tex_preamble\<close> when the preamble phase of \<open>run\<close> on these lines is over.\<close>

definition run_preamble :: "preprocessor \<Rightarrow> string list \<Rightarrow> string" where
  "run_preamble self lns =
     tex_preamble self @ general_preamble self @
     concat (map (\<lambda>p. p @ [newline]) (findall delim_preamble (join [newline] lns))) @
     [newline, bslash] @ ''begin{document}'' @ [newline]"

text \<open>A cache line that the loop of \<open>__init__\<close> accepts: stripped of its newlines it splits at its
  spaces into exactly two pieces, the key and the value.\<close>

definition well_formed :: "string \<Rightarrow> bool" where
  "well_formed l = (length (split CHR '' '' (strip_nl l)) = 2)"

definition entry_key :: "string \<Rightarrow> string" where
  "entry_key l = hd (split CHR '' '' (strip_nl l))"

definition entry_val :: "string \<Rightarrow> string" where
  "entry_val l = hd (tl (split CHR '' '' (strip_nl l)))"

text \<open>The dict after the assignments \<open>self.cached[key] = val\<close> for the given lines, in order.\<close>

definition store_lines :: "string list \<Rightarrow> (string \<rightharpoonup> string) \<Rightarrow> (string \<rightharpoonup> string)" where
  "store_lines ls c = foldl (\<lambda>m l. m(entry_key l \<mapsto> entry_val l)) c ls"

text \<open>The text without its matches: every match that the scan of \<open>findall\<close> meets is cut out,
  delimiters included.\<close>

function strip_matches :: "string \<Rightarrow> bool \<Rightarrow> string \<Rightarrow> string" where
  "strip_matches d esc s =
     (case search d esc s of
        None \<Rightarrow> s
      | Some (p, g, r) \<Rightarrow> p @ strip_matches d (last d = bslash) r)"
  by pat_completeness auto
termination
  by (relation "measure (\<lambda>(d, esc, s). length s)") (auto dest: search_rest_shorter)

declare strip_matches.simps [simp del]

text \<open>No position inside the prefix \<open>p\<close> of \<open>p @ t\<close> starts a match; \<open>esc\<close> is the lookbehind at the first
  character.\<close>

fun no_match_in :: "string \<Rightarrow> bool \<Rightarrow> string \<Rightarrow> string \<Rightarrow> bool" where
  "no_match_in d esc [] t = True"
| "no_match_in d esc (c # p) t =
     (match_here d esc (c # p @ t) = None \<and> no_match_in d (c = bslash) p t)"

text \<open>The document a subprocess was started on.\<close>

definition call_doc :: "call \<Rightarrow> string" where
  "call_doc c = (case c of Latex d \<Rightarrow> d | Dvipng d \<Rightarrow> d)"

text \<open>Deleting the backslash in front of every occurrence of a token, left to right.\<close>

fun strip_tok :: "string \<Rightarrow> string \<Rightarrow> string" where
  "strip_tok tok [] = []"
| "strip_tok tok (c # cs) =
     (if c = bslash \<and> prefix tok cs then strip_tok tok cs else c # strip_tok tok cs)"

text \<open>Replacing pairs of backslashes by one backslash, left to right.\<close>

fun halve_bslash :: "string \<Rightarrow> string" where
  "halve_bslash [] = []"
| "halve_bslash [c] = [c]"
| "halve_bslash (c # c' # cs) =
     (if c = bslash \<and> c' = bslash then bslash # halve_bslash cs
      else c # halve_bslash (c' # cs))"

text \<open>Un-escaping as one left-to-right pass, in the words of the specification: a backslash
  followed by a backslash gives one backslash, a backslash followed by a text or math
  delimiter gives the delimiter (the preamble delimiter begins with the text delimiter),
  and each escape is consumed once.\<close>

fun unescape_once :: "string \<Rightarrow> string" where
  "unescape_once [] = []"
| "unescape_once [c] = [c]"
| "unescape_once (c # c' # cs) =
     (if c = bslash \<and> c' = bslash then bslash # unescape_once cs
      else if c = bslash \<and> (prefix delim_text (c' # cs) \<or> prefix delim_math (c' # cs))
        then unescape_once (c' # cs)
      else c # unescape_once (c' # cs))"

text \<open>
  No run of backslashes of even, non-zero length stands directly before the preamble
  delimiter; \<open>n\<close> is the length of the run of backslashes read so far.
\<close>

fun runs_ok :: "nat \<Rightarrow> string \<Rightarrow> bool" where
  "runs_ok n [] = True"
| "runs_ok n (c # cs) =
     (if c = bslash then runs_ok (Suc n) cs
      else \<not> (0 < n \<and> even n \<and> prefix delim_preamble (c # cs)) \<and> runs_ok 0 cs)"

definition unescape_safe :: "string \<Rightarrow> bool" where
  "unescape_safe s = runs_ok 0 s"

text \<open>The image tag of lines 182-186 for a mode, a hash, a value of the counter and a payload.\<close>

definition image_tag :: "bool \<Rightarrow> string \<Rightarrow> nat \<Rightarrow> string \<Rightarrow> string" where
  "image_tag math_mode h i data =
     (if math_mode then INLINE_IMG_EXPR h (h @ ''_'' @ str_nat i) data
      else IMG_EXPR h (h @ ''_'' @ str_nat i) data)"

text \<open>The subprocesses that one turn of the loop starts for an expression.\<close>

definition expr_calls :: "tools \<Rightarrow> (string \<rightharpoonup> string) \<Rightarrow> string \<Rightarrow> bool \<Rightarrow> string \<Rightarrow> call list" where
  "expr_calls T cache tp m e =
     (case cache (md5_hex T e) of
        Some v \<Rightarrow> []
      | None \<Rightarrow> fst (latex_to_base64 T tp e m))"

text \<open>A text without space, line feed and carriage return, as a hexadecimal digest or a
  base64 text is.\<close>

definition clean :: "string \<Rightarrow> bool" where
  "clean x = (CHR '' '' \<notin> set x \<and> newline \<notin> set x \<and> creturn \<notin> set x)"

text \<open>The line written for one entry of \<open>new_cache\<close>.\<close>

definition cache_line :: "string \<times> string \<Rightarrow> string" where
  "cache_line kv = fst kv @ '' '' @ snd kv @ [newline]"

text \<open>What holds of \<open>new_cache\<close> all along the loop when digests and payloads are clean: its keys
  are distinct and its entries are clean.\<close>

definition nc_ok :: "(string \<times> string) list \<Rightarrow> bool" where
  "nc_ok nc = (distinct (map fst nc) \<and> (\<forall>kv \<in> set nc. clean (fst kv) \<and> clean (snd kv)))"

text \<open>A cache file from which every entry appended later will be loaded: missing, or a text
  that is empty or ends with a line end and has only well-formed lines.\<close>

definition file_well_formed :: "cache_file \<Rightarrow> bool" where
  "file_well_formed f =
     (case f of
        Missing \<Rightarrow> True
      | Denied \<Rightarrow> False
      | Text s \<Rightarrow>
          (s = [] \<or> last s = newline \<or> last s = creturn) \<and>
          (\<forall>l \<in> set (readlines s). well_formed l))"

text \<open>
  The turn of the loop for a work-list entry compiles and rasterizes with exit status 0,
  the hash of its expression not being in the loaded cache; and the payload it obtains.
\<close>

definition compiled_ok :: "tools \<Rightarrow> (string \<rightharpoonup> string) \<Rightarrow> string \<Rightarrow> string \<times> bool \<times> string \<Rightarrow> bool" where
  "compiled_ok T cache tp x =
     (cache (md5_hex T (snd (snd x))) = None \<and>
      latex T (document tp (snd (snd x)) (fst (snd x))) = 0 \<and>
      dvipng T (document tp (snd (snd x)) (fst (snd x))) = 0)"

definition payload_of :: "tools \<Rightarrow> string \<Rightarrow> string \<times> bool \<times> string \<Rightarrow> string" where
  "payload_of T tp x = png_base64 T (document tp (snd (snd x)) (fst (snd x)))"

text \<open>The assignment \<open>new_cache[simp_expr] = data\<close> of a turn, on the dict that \<open>new_cache\<close> stands for.\<close>

definition record_payload ::
  "tools \<Rightarrow> (string \<rightharpoonup> string) \<Rightarrow> string \<Rightarrow> (string \<rightharpoonup> string) \<Rightarrow> string \<times> bool \<times> string
     \<Rightarrow> (string \<rightharpoonup> string)" where
  "record_payload T cache tp nc x =
     (if compiled_ok T cache tp x then nc(md5_hex T (snd (snd x)) \<mapsto> payload_of T tp x) else nc)"

text \<open>
  The payload that a run leaves under a hash: the one of the last turn of the work list
  that compiled an expression with this hash successfully.
\<close>

definition stored_payload ::
  "tools \<Rightarrow> (string \<rightharpoonup> string) \<Rightarrow> string \<Rightarrow> (string \<times> bool \<times> string) list \<Rightarrow> string \<Rightarrow> string" where
  "stored_payload T cache tp es h =
     payload_of T tp
       (last (filter (\<lambda>x. compiled_ok T cache tp x \<and> md5_hex T (snd (snd x)) = h) es))"

subsection \<open>Example documents\<close>

text \<open>A preamble region followed by a text-mode expression.\<close>

definition xcolor_doc :: "string list" where
  "xcolor_doc = [''%%'' @ [bslash] @ ''usepackage{xcolor}%%'', ''%a%'']"

text \<open>A math-mode region inside a text-mode region.\<close>

definition nested_doc :: "string list" where
  "nested_doc = [''%a '' @ delim_math @ ''b'' @ delim_math @ '' c%'']"

text \<open>One math-mode expression followed by plain text.\<close>

definition math_only_doc :: string where
  "math_only_doc = delim_math @ ''b'' @ delim_math @ '' x''"

text \<open>The preamble of the first run of a fresh instance on a document without preamble regions.\<close>

definition start_preamble :: string where
  "start_preamble = base_preamble @ [newline, bslash] @ ''begin{document}'' @ [newline]"

text \<open>The same text-mode expression twice.\<close>

definition twice_doc :: "string list" where
  "twice_doc = [''%a% %a%'']"

text \<open>A loaded cache that knows the expression \<open>a\<close>.\<close>

definition warm_cache :: "string \<rightharpoonup> string" where
  "warm_cache = [''0cc175b9c0f1b6a831c399e269772661'' \<mapsto> ''QUJD'']"

text \<open>One text-mode expression.\<close>

definition once_doc :: "string list" where
  "once_doc = [''%a%'']"

text \<open>The cache line that the example tools produce for the expression \<open>a\<close>.\<close>

definition cache_text_a :: string where
  "cache_text_a = ''0cc175b9c0f1b6a831c399e269772661 iVBORw0KGgo='' @ [newline]"

text \<open>A cache file with one entry and a CRLF line end.\<close>

definition crlf_cache :: string where
  "crlf_cache = ''k v'' @ [creturn, newline]"

text \<open>Cache files with two entries and CRLF line ends, and with a malformed second line
  between carriage returns.\<close>

definition crlf_two :: string where
  "crlf_two = ''k1 v1'' @ [creturn, newline] @ ''k2 v2'' @ [creturn, newline]"

definition cr_bad :: string where
  "cr_bad = ''k1 v1'' @ [creturn] @ ''bad'' @ [creturn] @ ''k2 v2''"

text \<open>A loaded cache whose entry for the expression \<open>a\<close> has the empty payload, as the cache line
  made of the hash and a space gives it.\<close>

definition empty_payload_cache :: "string \<rightharpoonup> string" where
  "empty_payload_cache = [''0cc175b9c0f1b6a831c399e269772661'' \<mapsto> []]"

section \<open>Facts about the model\<close>

lemma absorb_preambles_eq:
  "absorb_preambles ps (tp, pg) =
     (tp @ concat (map (\<lambda>p. p @ [newline]) ps), ((sub1 delim_preamble []) ^^ length ps) pg)"
proof (induction ps arbitrary: tp pg)
  case Nil
  then show ?case by simp
next
  case (Cons p ps)
  show ?case by (simp add: Cons.IH funpow_swap1)
qed

lemma run_instance_after:
  "instance_after (run T self f lns) = self\<lparr>tex_preamble := run_preamble self lns\<rparr>"
  by (simp add: run_def run_expressions_def Let_def absorb_preambles_eq run_preamble_def
      split: prod.splits option.splits sum.splits)

lemma length_two: "length xs = 2 \<longleftrightarrow> (\<exists>a b. xs = [a, b])"
  by (cases xs; cases "tl xs"; cases "tl (tl xs)") auto

lemma load_lines_well_formed:
  "\<forall>l \<in> set ls. well_formed l \<Longrightarrow> load_lines (ls @ rest) c = load_lines rest (store_lines ls c)"
proof (induction ls arbitrary: c)
  case Nil
  then show ?case by (simp add: store_lines_def)
next
  case (Cons l ls)
  from Cons.prems obtain k v where kv: "split CHR '' '' (strip_nl l) = [k, v]"
    by (auto simp: well_formed_def length_two)
  have "load_lines ((l # ls) @ rest) c = load_lines (ls @ rest) (c(k \<mapsto> v))"
    by (simp add: kv)
  also have "\<dots> = load_lines rest (store_lines ls (c(k \<mapsto> v)))"
    using Cons.prems by (intro Cons.IH) simp
  also have "store_lines ls (c(k \<mapsto> v)) = store_lines (l # ls) c"
    by (simp add: store_lines_def entry_key_def entry_val_def kv)
  finally show ?case .
qed

lemma load_lines_malformed:
  "\<not> well_formed l \<Longrightarrow> load_lines (l # rest) c = (Some ValueError, c)"
proof -
  assume a: "\<not> well_formed l"
  then have "\<nexists>a b. split CHR '' '' (strip_nl l) = [a, b]"
    by (auto simp: well_formed_def)
  then show ?thesis
    by (auto split: list.splits)
qed

lemma split_acc_no_sep:
  "sep \<notin> set l \<Longrightarrow> split_acc sep cur (l @ s) = split_acc sep (cur @ l) s"
  by (induction l arbitrary: cur) auto

lemma split_acc_join:
  "lns \<noteq> [] \<Longrightarrow> \<forall>l \<in> set lns. sep \<notin> set l \<Longrightarrow>
   split_acc sep cur (join [sep] lns) = (cur @ hd lns) # tl lns"
proof (induction lns arbitrary: cur)
  case Nil
  then show ?case by simp
next
  case (Cons x xs)
  show ?case
  proof (cases xs)
    case Nil
    then show ?thesis using Cons.prems split_acc_no_sep [of sep x cur "[]"] by simp
  next
    case (Cons y ys)
    have "split_acc sep cur (join [sep] (x # y # ys)) =
        split_acc sep (cur @ x) (sep # join [sep] (y # ys))"
      using Cons.prems split_acc_no_sep [of sep x cur] by simp
    also have "\<dots> = (cur @ x) # split_acc sep [] (join [sep] (y # ys))" by simp
    also have "split_acc sep [] (join [sep] (y # ys)) = y # ys"
      using Cons.IH [of "[]"] Cons.prems Cons by simp
    finally show ?thesis using Cons by simp
  qed
qed

lemma split_join:
  "lns \<noteq> [] \<Longrightarrow> \<forall>l \<in> set lns. sep \<notin> set l \<Longrightarrow> split sep (join [sep] lns) = lns"
  by (simp add: split_def split_acc_join)

lemma search_prefix_no_match:
  "search d esc s = Some (p, g, r) \<Longrightarrow> no_match_in d esc p (d @ g @ d @ r)"
proof (induction s arbitrary: esc p)
  case Nil
  then show ?case by simp
next
  case (Cons c cs)
  show ?case
  proof (cases "match_here d esc (c # cs)")
    case (Some gr)
    with Cons.prems have "p = []" by (auto split: prod.splits)
    then show ?thesis by simp
  next
    case None
    with Cons.prems obtain p' where s: "search d (c = bslash) cs = Some (p', g, r)" "p = c # p'"
      by auto
    from search_decomp [OF s(1)] have cs: "cs = p' @ d @ g @ d @ r" by simp
    from Cons.IH [OF s(1)] None s(2) cs show ?thesis by simp
  qed
qed

lemma search_skip_prefix:
  "no_match_in d esc p t \<Longrightarrow>
   search d esc (p @ t) =
     map_option (\<lambda>(p', g, r). (p @ p', g, r)) (search d (if p = [] then esc else last p = bslash) t)"
proof (induction p arbitrary: esc)
  case Nil
  show ?case by (simp add: option.map_ident case_prod_unfold)
next
  case (Cons c p)
  from Cons.prems have n: "match_here d esc (c # p @ t) = None"
    and r: "no_match_in d (c = bslash) p t" by auto
  have "search d esc ((c # p) @ t) =
      map_option (\<lambda>(p', g, r). (c # p', g, r)) (search d (c = bslash) (p @ t))"
    using n by simp
  also note Cons.IH [OF r]
  finally show ?case
    by (auto simp: option.map_comp comp_def case_prod_unfold)
qed

lemma close_at_exists:
  "d \<noteq> [] \<Longrightarrow> last (p # u) \<noteq> bslash \<Longrightarrow> close_at d p (u @ d @ r) \<noteq> None"
proof (induction u arbitrary: p)
  case Nil
  then show ?case by (cases d) auto
next
  case (Cons c u)
  from Cons.prems have "close_at d c (u @ d @ r) \<noteq> None"
    by (intro Cons.IH) auto
  then show ?case by auto
qed

lemma group_close_exists:
  "d \<noteq> [] \<Longrightarrow> u \<noteq> [] \<Longrightarrow> last u \<noteq> bslash \<Longrightarrow> group_close d (u @ d @ r) \<noteq> None"
  using close_at_exists [of d "hd u" "tl u" r]
  by (cases u) (auto simp: group_close_def)

lemma match_here_seam_preamble:
  assumes "match_here delim_preamble esc (c # p @ delim_preamble @ g @ delim_preamble @ r) = None"
    and "g \<noteq> []" "last g \<noteq> bslash"
  shows "match_here delim_preamble esc (c # p @ r) = None"
proof (rule ccontr)
  assume "match_here delim_preamble esc (c # p @ r) \<noteq> None"
  then have e: "\<not> esc" and pr: "prefix ''%%'' (c # p @ r)"
    by (auto simp: match_here_def delim_preamble_def split: if_splits)
  have d: "delim_preamble \<noteq> []" by (simp add: delim_preamble_def)
  show False
  proof (cases p)
    case Nil
    with pr have c: "c = CHR ''%''" by simp
    have "group_close delim_preamble ((CHR ''%'' # g) @ delim_preamble @ r) \<noteq> None"
      using assms(2,3) by (intro group_close_exists [OF d]) auto
    with assms(1) e c Nil show False
      by (simp add: match_here_def delim_preamble_def)
  next
    case (Cons c' p')
    with pr have c: "c = CHR ''%''" "c' = CHR ''%''" by auto
    have "group_close delim_preamble ((p' @ delim_preamble @ g) @ delim_preamble @ r) \<noteq> None"
      using assms(2,3) by (intro group_close_exists [OF d]) auto
    with assms(1) e c Cons show False
      by (simp add: match_here_def delim_preamble_def)
  qed
qed

lemma no_match_in_seam_preamble:
  "no_match_in delim_preamble esc p (delim_preamble @ g @ delim_preamble @ r) \<Longrightarrow>
   g \<noteq> [] \<Longrightarrow> last g \<noteq> bslash \<Longrightarrow> no_match_in delim_preamble esc p r"
  by (induction p arbitrary: esc) (auto intro: match_here_seam_preamble)

lemma search_after_removal:
  assumes "search delim_preamble False s = Some (p, g, r)"
  shows "search delim_preamble False (p @ r) =
     map_option (\<lambda>(p', g', r'). (p @ p', g', r')) (search delim_preamble False r)"
proof -
  from search_bounds [OF assms] have b: "last g \<noteq> bslash" "p \<noteq> [] \<longrightarrow> last p \<noteq> bslash"
    by (auto split: if_splits)
  from search_decomp [OF assms] have g: "g \<noteq> []" by simp
  have "no_match_in delim_preamble False p r"
    using search_prefix_no_match [OF assms] g b(1) by (rule no_match_in_seam_preamble)
  from search_skip_prefix [OF this] b(2) show ?thesis by auto
qed

lemma preamble_last: "(last delim_preamble = bslash) = False"
  by (simp add: delim_preamble_def)

lemma findall_after_removal:
  assumes "search delim_preamble False s = Some (p, g, r)"
  shows "findall_from delim_preamble False (p @ r) = findall_from delim_preamble False r"
    and "strip_matches delim_preamble False (p @ r) = p @ strip_matches delim_preamble False r"
proof -
  note sr = search_after_removal [OF assms]
  show "findall_from delim_preamble False (p @ r) = findall_from delim_preamble False r"
    by (subst findall_from.simps, subst (2) findall_from.simps)
      (simp add: sr split: option.splits)
  show "strip_matches delim_preamble False (p @ r) = p @ strip_matches delim_preamble False r"
    by (subst strip_matches.simps, subst (2) strip_matches.simps)
      (simp add: sr split: option.splits)
qed

lemma remove_preambles_one_by_one:
  "((sub1 delim_preamble []) ^^ length (findall_from delim_preamble False s)) s =
     strip_matches delim_preamble False s \<and>
   findall_from delim_preamble False (strip_matches delim_preamble False s) = []"
proof (induction "length s" arbitrary: s rule: less_induct)
  case less
  show ?case
  proof (cases "search delim_preamble False s")
    case None
    then show ?thesis
      by (simp add: findall_from.simps [of _ _ s] strip_matches.simps [of _ _ s])
  next
    case (Some pgr)
    then obtain p g r where sr: "search delim_preamble False s = Some (p, g, r)"
      by (cases pgr) auto
    from search_decomp [OF sr] have "length s = length (p @ delim_preamble @ g @ delim_preamble @ r)"
      by simp
    then have "length (p @ r) < length s"
      by (simp add: delim_preamble_def)
    note IH = less.hyps [OF this]
    have fa: "findall_from delim_preamble False s = g # findall_from delim_preamble False r"
      using sr by (simp add: findall_from.simps [of _ _ s] preamble_last)
    have st: "strip_matches delim_preamble False s = p @ strip_matches delim_preamble False r"
      using sr by (simp add: strip_matches.simps [of _ _ s] preamble_last)
    have s1: "sub1 delim_preamble [] s = p @ r"
      using sr by (simp add: sub1_def)
    show ?thesis
      using IH unfolding fa st findall_after_removal [OF sr]
      by (simp add: funpow_swap1 s1)
  qed
qed

lemma obtain_data_calls:
  "obtain_data T cache tp m e nc = (cs, data, nc') \<Longrightarrow> \<forall>c \<in> set cs. call_doc c = document tp e m"
  by (auto simp: obtain_data_def latex_to_base64_def Let_def call_doc_def
      split: option.splits if_splits)

lemma step_calls:
  "step T cache tp (d, m, e) st = (st', x) \<Longrightarrow>
   \<exists>cs. calls st' = calls st @ cs \<and> (\<forall>c \<in> set cs. call_doc c = document tp e m)"
  by (auto simp: step_def Let_def split: prod.splits sum.splits dest: obtain_data_calls)

lemma rewrite_calls:
  "rewrite T cache tp es st = (st', x) \<Longrightarrow>
   \<exists>cs. calls st' = calls st @ cs \<and>
     (\<forall>c \<in> set cs. \<exists>e \<in> set es. call_doc c = document tp (snd (snd e)) (fst (snd e)))"
proof (induction es arbitrary: st)
  case Nil
  then show ?case by simp
next
  case (Cons e es)
  obtain d m ex where e: "e = (d, m, ex)" by (cases e) auto
  obtain st1 x1 where s1: "step T cache tp (d, m, ex) st = (st1, x1)" by force
  from step_calls [OF s1] obtain cs1 where c1: "calls st1 = calls st @ cs1"
    "\<forall>c \<in> set cs1. call_doc c = document tp ex m" by auto
  show ?case
  proof (cases x1)
    case None
    with Cons.prems e s1 have "rewrite T cache tp es st1 = (st', x)" by simp
    from Cons.IH [OF this] obtain cs2 where c2: "calls st' = calls st1 @ cs2"
      "\<forall>c \<in> set cs2. \<exists>e \<in> set es. call_doc c = document tp (snd (snd e)) (fst (snd e))"
      by auto
    have "calls st' = calls st @ (cs1 @ cs2)" using c1 c2 by simp
    moreover have "\<forall>c \<in> set (cs1 @ cs2). \<exists>e' \<in> set (e # es).
        call_doc c = document tp (snd (snd e')) (fst (snd e'))"
      using c1(2) c2(2) e by auto
    ultimately show ?thesis by blast
  next
    case (Some a)
    with Cons.prems e s1 have "st' = st1" by simp
    with c1 e show ?thesis by auto
  qed
qed

lemma run_expressions_calls:
  "\<forall>c \<in> set (started (run_expressions T self f pg)).
     \<exists>e \<in> set (tex_expr pg). call_doc c = document (tex_preamble self) (snd (snd e)) (fst (snd e))"
proof (cases "tex_expr pg = []")
  case True
  then show ?thesis by (simp add: run_expressions_def)
next
  case False
  obtain st x where r: "rewrite T (cached self) (tex_preamble self) (tex_expr pg)
      \<lparr>page = pg, new_cache = [], idn = 0, calls = []\<rparr> = (st, x)" by force
  from rewrite_calls [OF r] have "\<forall>c \<in> set (calls st).
      \<exists>e \<in> set (tex_expr pg). call_doc c = document (tex_preamble self) (snd (snd e)) (fst (snd e))"
    by auto
  moreover have "started (run_expressions T self f pg) = calls st"
    using False r by (simp add: run_expressions_def split: option.splits sum.splits)
  ultimately show ?thesis by simp
qed

lemma run_unfold:
  "run T self f lns =
     run_expressions T (self\<lparr>tex_preamble := run_preamble self lns\<rparr>) f
       (strip_matches delim_preamble False (join [newline] lns))"
  using remove_preambles_one_by_one [of "join [newline] lns"]
  by (simp add: run_def Let_def absorb_preambles_eq run_preamble_def findall_def)

lemma strip_tok_through:
  "bslash \<notin> set t \<Longrightarrow> strip_tok tok (t @ r) = t @ strip_tok tok r"
  by (induction t) auto

lemma str_replace_strip_tok:
  "bslash \<notin> set tok \<Longrightarrow> str_replace (bslash # tok) tok s = strip_tok tok s"
proof (induction "length s" arbitrary: s rule: less_induct)
  case less
  show ?case
  proof (cases s)
    case Nil
    then show ?thesis by simp
  next
    case (Cons c cs)
    show ?thesis
    proof (cases "c = bslash \<and> prefix tok cs")
      case True
      then obtain r where r: "cs = tok @ r" by (auto simp: prefix_def)
      have "length r < length s" using Cons r by simp
      from less.hyps [OF this less.prems]
      have "str_replace (bslash # tok) tok r = strip_tok tok r" .
      then show ?thesis
        using True Cons r less.prems by (simp add: strip_tok_through)
    next
      case False
      have "length cs < length s" using Cons by simp
      from less.hyps [OF this less.prems] False Cons show ?thesis by auto
    qed
  qed
qed

lemma str_replace_halve:
  "str_replace [bslash, bslash] [bslash] s = halve_bslash s"
  by (induction s rule: halve_bslash.induct) auto

lemma unescape_alt:
  "unescape pg =
     halve_bslash (strip_tok delim_math (strip_tok delim_text (strip_tok delim_preamble pg)))"
proof -
  have "bslash \<notin> set delim_preamble" "bslash \<notin> set delim_text" "bslash \<notin> set delim_math"
    by (simp_all add: delim_preamble_def delim_text_def delim_math_def)
  then show ?thesis
    by (simp add: unescape_def str_replace_strip_tok str_replace_halve)
qed

lemmas delims = delim_text_def delim_math_def delim_preamble_def

lemma halve_bslash_other:
  "c \<noteq> bslash \<Longrightarrow> halve_bslash (c # xs) = c # halve_bslash xs"
  by (cases xs) auto

lemma obtain_data_compile_failed:
  "cache (md5_hex T expr) = None \<Longrightarrow> latex T (document tp expr m) \<noteq> 0 \<Longrightarrow>
   obtain_data T cache tp m expr nc = ([Latex (document tp expr m)], [], nc)"
  by (simp add: obtain_data_def latex_to_base64_def)

lemma error_marker_literal: "bslash \<notin> set ERROR_MARKER"
  by (simp add: ERROR_MARKER_def)

lemma replacement_empty: "replacement m h i [] = ERROR_MARKER"
  by (simp add: replacement_def ERROR_MARKER_def)

lemma step_compile_failed:
  assumes "cache (md5_hex T expr) = None" "latex T (document tp expr m) \<noteq> 0"
  shows "step T cache tp (d, m, expr) st =
     (st\<lparr>idn := idn st + 1, calls := calls st @ [Latex (document tp expr m)],
         page := sub1 d ERROR_MARKER (page st)\<rparr>, None)"
  using assms
  by (simp add: step_def obtain_data_compile_failed replacement_empty re_sub_def
      error_marker_literal Let_def)

lemma findall_from_head:
  "findall_from d esc s = g # gs \<Longrightarrow> \<exists>p r. search d esc s = Some (p, g, r)"
  by (subst (asm) findall_from.simps) (auto split: option.splits)

lemma tex_expr_head:
  assumes "tex_expr pg = (d, m, expr) # es"
  shows "\<exists>p r. search d False pg = Some (p, expr, r)"
proof (cases "findall delim_text pg")
  case Nil
  with assms obtain gs where "findall delim_math pg = expr # gs" "d = delim_math"
    by (auto simp: tex_expr_def Cons_eq_map_conv)
  then show ?thesis using findall_from_head [of delim_math False pg expr gs]
    by (simp add: findall_def)
next
  case (Cons g gs)
  with assms have "g = expr" "d = delim_text" by (auto simp: tex_expr_def)
  with Cons show ?thesis using findall_from_head [of delim_text False pg expr gs]
    by (simp add: findall_def)
qed

lemma digit_char_inj:
  assumes "a < 10" "b < 10" "digit_char a = digit_char b"
  shows "a = b"
proof -
  from assms(3) have "(of_char (digit_char a) :: nat) = of_char (digit_char b)" by simp
  with assms(1,2) show ?thesis by (simp add: digit_char_def)
qed

lemma str_nat_nonempty: "str_nat n \<noteq> []"
  by (subst str_nat.simps) simp

lemma str_nat_inj: "str_nat i = str_nat j \<Longrightarrow> i = j"
proof (induction i arbitrary: j rule: str_nat.induct)
  case (1 n)
  show ?case
  proof (cases "n < 10")
    case small: True
    show ?thesis
    proof (cases "j < 10")
      case True
      with small "1.prems" have "digit_char n = digit_char j"
        by (simp add: str_nat.simps [of n] str_nat.simps [of j])
      with small True show ?thesis by (rule digit_char_inj)
    next
      case False
      with small "1.prems" have "[digit_char n] = str_nat (j div 10) @ [digit_char (j mod 10)]"
        by (simp add: str_nat.simps [of n] str_nat.simps [of j])
      then show ?thesis using str_nat_nonempty [of "j div 10"] by simp
    qed
  next
    case large: False
    show ?thesis
    proof (cases "j < 10")
      case True
      with large "1.prems" have "str_nat (n div 10) @ [digit_char (n mod 10)] = [digit_char j]"
        by (simp add: str_nat.simps [of n] str_nat.simps [of j])
      then show ?thesis using str_nat_nonempty [of "n div 10"] by simp
    next
      case False
      with large "1.prems" have e: "str_nat (n div 10) = str_nat (j div 10)"
        "digit_char (n mod 10) = digit_char (j mod 10)"
        by (simp_all add: str_nat.simps [of n] str_nat.simps [of j])
      from "1.IH" [OF large e(1)] have d: "n div 10 = j div 10" .
      have "n mod 10 = j mod 10" using e(2) by (intro digit_char_inj) simp_all
      with d show ?thesis by (metis div_mult_mod_eq)
    qed
  qed
qed

lemma step_cached:
  "cache (md5_hex T e) = Some v \<Longrightarrow>
   step T cache tp (d, m, e) st =
     (case re_sub T d (replacement m (md5_hex T e) (idn st + 1) v) (page st) of
        Inl x \<Rightarrow> (st\<lparr>idn := idn st + 1\<rparr>, Some x)
      | Inr pg \<Rightarrow> (st\<lparr>idn := idn st + 1, page := pg\<rparr>, None))"
  by (simp add: step_def obtain_data_def Let_def split: sum.splits)

lemma step_effects:
  "calls (fst (step T cache tp (d, m, e) st)) = calls st @ expr_calls T cache tp m e \<and>
   idn (fst (step T cache tp (d, m, e) st)) = idn st + 1"
  by (auto simp: step_def obtain_data_def expr_calls_def Let_def
      split: sum.splits option.splits prod.splits)

lemma rewrite_effects:
  "snd (rewrite T cache tp es st) = None \<Longrightarrow>
   calls (fst (rewrite T cache tp es st)) =
     calls st @ concat (map (\<lambda>(d, m, e). expr_calls T cache tp m e) es) \<and>
   idn (fst (rewrite T cache tp es st)) = idn st + length es"
proof (induction es arbitrary: st)
  case Nil
  then show ?case by simp
next
  case (Cons e es)
  obtain d m ex where e: "e = (d, m, ex)" by (cases e) auto
  obtain st1 x1 where s1: "step T cache tp (d, m, ex) st = (st1, x1)" by force
  from Cons.prems e s1 have x1: "x1 = None" by (cases x1) auto
  with Cons.prems e s1 have "snd (rewrite T cache tp es st1) = None" by simp
  note IH = Cons.IH [OF this]
  from step_effects [of T cache tp d m ex st] s1
  have "calls st1 = calls st @ expr_calls T cache tp m ex" "idn st1 = idn st + 1" by simp_all
  with IH e s1 x1 show ?case by simp
qed

lemma cache_lines_alt: "cache_lines nc = concat (map cache_line nc)"
  by (induction nc) (auto simp: cache_lines_def cache_line_def)

lemma lines_acc_line:
  "newline \<notin> set l \<Longrightarrow> lines_acc cur (l @ newline # rest) = (cur @ l @ [newline]) # lines_acc [] rest"
  by (induction l arbitrary: cur) auto

lemma lines_acc_append:
  "s \<noteq> [] \<Longrightarrow> last s = newline \<Longrightarrow> lines_acc cur (s @ t) = lines_acc cur s @ lines_acc [] t"
proof (induction s arbitrary: cur)
  case Nil
  then show ?case by simp
next
  case (Cons c cs)
  show ?case
  proof (cases "cs = []")
    case True
    with Cons.prems show ?thesis by simp
  next
    case False
    with Cons.prems have "last cs = newline" by simp
    with Cons.IH False show ?thesis by simp
  qed
qed

lemma universal_newlines_plain:
  "creturn \<notin> set s \<Longrightarrow> universal_newlines s = s"
  by (induction s rule: universal_newlines.induct) auto

lemma universal_newlines_append:
  "s = [] \<or> last s = newline \<or> (last s = creturn \<and> \<not> prefix [newline] t) \<Longrightarrow>
   universal_newlines (s @ t) = universal_newlines s @ universal_newlines t"
proof (induction s rule: universal_newlines.induct)
  case 1
  then show ?case by simp
next
  case (2 c)
  then show ?case by (cases t) auto
next
  case (3 c c' cs)
  then show ?case by (cases "cs = []") auto
qed

lemma universal_newlines_last:
  "s \<noteq> [] \<Longrightarrow> last s = newline \<or> last s = creturn \<Longrightarrow>
   universal_newlines s \<noteq> [] \<and> last (universal_newlines s) = newline"
proof (induction s rule: universal_newlines.induct)
  case 1
  then show ?case by simp
next
  case (2 c)
  then show ?case by auto
next
  case (3 c c' cs)
  then show ?case by (cases "cs = []") auto
qed

lemma readlines_append:
  assumes "s = [] \<or> last s = newline \<or> last s = creturn" and "\<not> prefix [newline] t"
  shows "readlines (s @ t) = readlines s @ readlines t"
proof (cases "s = []")
  case True
  then show ?thesis by (simp add: readlines_def)
next
  case False
  with assms have u: "universal_newlines (s @ t) = universal_newlines s @ universal_newlines t"
    by (intro universal_newlines_append) auto
  from False assms(1) universal_newlines_last [of s]
  have "universal_newlines s \<noteq> []" "last (universal_newlines s) = newline" by auto
  then show ?thesis by (simp add: readlines_def u lines_acc_append)
qed

lemma cache_lines_chars:
  "\<forall>kv \<in> set nc. clean (fst kv) \<and> clean (snd kv) \<Longrightarrow>
   creturn \<notin> set (cache_lines nc) \<and> \<not> prefix [newline] (cache_lines nc)"
proof (induction nc)
  case Nil
  then show ?case by (simp add: cache_lines_alt)
next
  case (Cons kv nc)
  then have "creturn \<notin> set (cache_lines nc)" by simp
  moreover from Cons.prems have "creturn \<notin> set (cache_line kv)"
    by (simp add: cache_line_def clean_def)
  moreover from Cons.prems have "\<not> prefix [newline] (cache_line kv @ cache_lines nc)"
    by (cases "fst kv") (auto simp: cache_line_def clean_def)
  ultimately show ?case by (simp add: cache_lines_alt)
qed

lemma readlines_cache_lines:
  assumes "\<forall>kv \<in> set nc. clean (fst kv) \<and> clean (snd kv)"
  shows "readlines (cache_lines nc) = map cache_line nc"
proof -
  have "lines_acc [] (concat (map cache_line nc)) = map cache_line nc"
    using assms
  proof (induction nc)
    case Nil
    then show ?case by simp
  next
    case (Cons kv nc)
    then have IH: "lines_acc [] (concat (map cache_line nc)) = map cache_line nc" by simp
    from Cons.prems have "newline \<notin> set (fst kv @ '' '' @ snd kv)"
      by (simp add: clean_def)
    from lines_acc_line [OF this, of "[]" "concat (map cache_line nc)"]
    have "lines_acc [] (cache_line kv @ concat (map cache_line nc)) =
        cache_line kv # lines_acc [] (concat (map cache_line nc))"
      by (simp add: cache_line_def [of kv])
    with IH show ?case by simp
  qed
  with cache_lines_chars [OF assms] show ?thesis
    by (simp add: readlines_def universal_newlines_plain cache_lines_alt)
qed

lemma dropWhile_head: "xs = [] \<or> \<not> P (hd xs) \<Longrightarrow> dropWhile P xs = xs"
  by (cases xs) auto

lemma strip_nl_cache_line:
  assumes "clean k" "clean v"
  shows "strip_nl (cache_line (k, v)) = k @ '' '' @ v"
proof -
  have 1: "dropWhile (\<lambda>c. c = newline) (k @ '' '' @ v @ [newline]) = k @ '' '' @ v @ [newline]"
    using assms by (intro dropWhile_head) (cases k, auto simp: clean_def)
  have 2: "dropWhile (\<lambda>c. c = newline) (rev (k @ '' '' @ v)) = rev (k @ '' '' @ v)"
    using assms by (intro dropWhile_head) (cases "rev v", auto simp: clean_def)
  show ?thesis
    unfolding strip_nl_def cache_line_def using 1 2 by simp
qed

lemma split_cache_line:
  assumes "clean k" "clean v"
  shows "split CHR '' '' (strip_nl (cache_line (k, v))) = [k, v]"
proof -
  have "split_acc CHR '' '' [] (k @ CHR '' '' # v) = [k, v]"
    using assms split_acc_no_sep [of "CHR '' ''" k "[]" "CHR '' '' # v"]
      split_acc_no_sep [of "CHR '' ''" v "[]" "[]"]
    by (simp add: clean_def)
  then show ?thesis by (simp add: strip_nl_cache_line [OF assms] split_def)
qed

lemma cache_line_well_formed:
  "clean k \<Longrightarrow> clean v \<Longrightarrow>
   well_formed (cache_line (k, v)) \<and> entry_key (cache_line (k, v)) = k \<and>
   entry_val (cache_line (k, v)) = v"
  by (simp add: well_formed_def entry_key_def entry_val_def split_cache_line)

lemma store_lines_append:
  "store_lines (xs @ ys) c = store_lines ys (store_lines xs c)"
  by (simp add: store_lines_def)

lemma store_cache_lines_miss:
  "\<forall>kv \<in> set nc. clean (fst kv) \<and> clean (snd kv) \<Longrightarrow> h \<notin> fst ` set nc \<Longrightarrow>
   store_lines (map cache_line nc) c h = c h"
proof (induction nc arbitrary: c)
  case Nil
  then show ?case by (simp add: store_lines_def)
next
  case (Cons kv nc)
  obtain k v where kv: "kv = (k, v)" by (cases kv) auto
  from Cons.prems kv have cl: "clean k" "clean v" and ne: "k \<noteq> h" by auto
  have "store_lines (map cache_line (kv # nc)) c = store_lines (map cache_line nc) (c(k \<mapsto> v))"
    using cache_line_well_formed [OF cl] kv by (simp add: store_lines_def)
  moreover have "store_lines (map cache_line nc) (c(k \<mapsto> v)) h = (c(k \<mapsto> v)) h"
    using Cons.prems by (intro Cons.IH) auto
  ultimately show ?case using ne by simp
qed

lemma store_cache_lines_hit:
  "\<forall>kv \<in> set nc. clean (fst kv) \<and> clean (snd kv) \<Longrightarrow> distinct (map fst nc) \<Longrightarrow>
   map_of nc h = Some v \<Longrightarrow> store_lines (map cache_line nc) c h = Some v"
proof (induction nc arbitrary: c)
  case Nil
  then show ?case by simp
next
  case (Cons kv nc)
  obtain k x where kv: "kv = (k, x)" by (cases kv) auto
  from Cons.prems kv have cl: "clean k" "clean x" by auto
  have st: "store_lines (map cache_line (kv # nc)) c = store_lines (map cache_line nc) (c(k \<mapsto> x))"
    using cache_line_well_formed [OF cl] kv by (simp add: store_lines_def)
  show ?case
  proof (cases "k = h")
    case True
    with Cons.prems kv have xv: "x = v" "h \<notin> fst ` set nc" by auto
    have "store_lines (map cache_line nc) (c(k \<mapsto> x)) h = (c(k \<mapsto> x)) h"
      using Cons.prems xv(2) by (intro store_cache_lines_miss) auto
    then show ?thesis using True xv(1) by (simp only: st) simp
  next
    case False
    with Cons.prems kv have m: "map_of nc h = Some v" by simp
    have "store_lines (map cache_line nc) (c(k \<mapsto> x)) h = Some v"
      using Cons.prems m by (intro Cons.IH) auto
    then show ?thesis by (simp only: st)
  qed
qed

lemma set_update_subset: "set (AList.update k v al) \<subseteq> insert (k, v) (set al)"
  by (induction al) auto

lemma nc_ok_update:
  "nc_ok nc \<Longrightarrow> clean k \<Longrightarrow> clean v \<Longrightarrow> nc_ok (AList.update k v nc)"
  using set_update_subset [of k v nc]
  by (auto simp: nc_ok_def distinct_update)

lemma obtain_data_new_cache:
  assumes "\<forall>x. clean (md5_hex T x) \<and> clean (png_base64 T x)"
    and "obtain_data T cache tp m e nc = (cs, data, nc')" and "nc_ok nc"
  shows "nc_ok nc' \<and> dom (map_of nc) \<subseteq> dom (map_of nc') \<and>
         (cache (md5_hex T e) = None \<and> latex T (document tp e m) = 0 \<and>
          dvipng T (document tp e m) = 0 \<longrightarrow> md5_hex T e \<in> dom (map_of nc'))"
proof (cases "cache (md5_hex T e)")
  case (Some v)
  with assms show ?thesis by (simp add: obtain_data_def)
next
  case None
  show ?thesis
  proof (cases "latex T (document tp e m) = 0 \<and> dvipng T (document tp e m) = 0")
    case True
    with None assms(2) have nc': "nc' = AList.update (md5_hex T e) (png_base64 T (document tp e m)) nc"
      by (auto simp: obtain_data_def latex_to_base64_def Let_def)
    from assms(1,3) have "nc_ok nc'" unfolding nc' by (intro nc_ok_update) auto
    moreover have "dom (map_of nc) \<subseteq> dom (map_of nc')"
      unfolding nc' by (auto simp: update_conv')
    moreover have "md5_hex T e \<in> dom (map_of nc')"
      unfolding nc' by (simp add: update_conv')
    ultimately show ?thesis by blast
  next
    case False
    with None assms(2) have "nc' = nc"
      by (auto simp: obtain_data_def latex_to_base64_def Let_def split: if_splits)
    with assms(3) False show ?thesis by auto
  qed
qed

lemma step_new_cache:
  assumes "\<forall>x. clean (md5_hex T x) \<and> clean (png_base64 T x)" and "nc_ok (new_cache st)"
  shows "nc_ok (new_cache (fst (step T cache tp (d, m, e) st))) \<and>
         dom (map_of (new_cache st)) \<subseteq> dom (map_of (new_cache (fst (step T cache tp (d, m, e) st)))) \<and>
         (cache (md5_hex T e) = None \<and> latex T (document tp e m) = 0 \<and>
          dvipng T (document tp e m) = 0 \<longrightarrow>
            md5_hex T e \<in> dom (map_of (new_cache (fst (step T cache tp (d, m, e) st)))))"
proof -
  obtain cs data nc' where o: "obtain_data T cache tp m e (new_cache st) = (cs, data, nc')"
    by (cases "obtain_data T cache tp m e (new_cache st)") auto
  have "new_cache (fst (step T cache tp (d, m, e) st)) = nc'"
    using o by (simp add: step_def Let_def split: sum.splits)
  with obtain_data_new_cache [OF assms(1) o assms(2)] show ?thesis by simp
qed

lemma rewrite_new_cache:
  assumes "\<forall>x. clean (md5_hex T x) \<and> clean (png_base64 T x)"
  shows "nc_ok (new_cache st) \<Longrightarrow> snd (rewrite T cache tp es st) = None \<Longrightarrow>
     nc_ok (new_cache (fst (rewrite T cache tp es st))) \<and>
     dom (map_of (new_cache st)) \<subseteq> dom (map_of (new_cache (fst (rewrite T cache tp es st)))) \<and>
     (\<forall>x \<in> set es. cache (md5_hex T (snd (snd x))) = None \<and>
        latex T (document tp (snd (snd x)) (fst (snd x))) = 0 \<and>
        dvipng T (document tp (snd (snd x)) (fst (snd x))) = 0 \<longrightarrow>
          md5_hex T (snd (snd x)) \<in> dom (map_of (new_cache (fst (rewrite T cache tp es st)))))"
proof (induction es arbitrary: st)
  case Nil
  then show ?case by simp
next
  case (Cons x es)
  obtain d m e where x: "x = (d, m, e)" by (cases x) auto
  obtain st1 x1 where s1: "step T cache tp (d, m, e) st = (st1, x1)" by force
  from Cons.prems(2) x s1 have x1: "x1 = None" by (cases x1) auto
  with Cons.prems(2) x s1 have na: "snd (rewrite T cache tp es st1) = None" by simp
  from step_new_cache [OF assms Cons.prems(1), of cache tp d m e] s1
  have ok1: "nc_ok (new_cache st1)"
    and sub1: "dom (map_of (new_cache st)) \<subseteq> dom (map_of (new_cache st1))"
    and hit1: "cache (md5_hex T e) = None \<and> latex T (document tp e m) = 0 \<and>
          dvipng T (document tp e m) = 0 \<longrightarrow> md5_hex T e \<in> dom (map_of (new_cache st1))"
    by simp_all
  note IH = Cons.IH [OF ok1 na]
  have r: "rewrite T cache tp (x # es) st = rewrite T cache tp es st1"
    using x s1 x1 by simp
  show ?case unfolding r using IH sub1 hit1 x by auto
qed

lemma init_after_append:
  assumes "file_well_formed f" and "nc_ok nc" and "map_of nc h = Some v"
    and "append_cache f (cache_lines nc) = Inr f'"
  shows "\<exists>s'. f' = Text s' \<and> cache_line (h, v) \<in> set (readlines s') \<and>
           cached (init f' c) h = Some v"
proof -
  from assms(2) have cl: "\<forall>kv \<in> set nc. clean (fst kv) \<and> clean (snd kv)"
    and di: "distinct (map fst nc)" by (auto simp: nc_ok_def)
  have wf: "\<forall>l \<in> set (map cache_line nc). well_formed l"
    using cl cache_line_well_formed by auto
  from assms(3) have mem: "cache_line (h, v) \<in> set (map cache_line nc)"
    by (auto dest: map_of_SomeD)
  obtain s0 where f': "f' = Text (s0 @ cache_lines nc)"
    and s0: "s0 = [] \<or> last s0 = newline \<or> last s0 = creturn"
      "\<forall>l \<in> set (readlines s0). well_formed l"
  proof (cases f)
    case Missing
    with assms(4) have "f' = Text ([] @ cache_lines nc)" by (simp add: append_cache_def)
    then show ?thesis by (rule that) (simp_all add: readlines_def)
  next
    case Denied
    with assms(1) show ?thesis by (simp add: file_well_formed_def)
  next
    case (Text s)
    with assms(4) have "f' = Text (s @ cache_lines nc)" by (simp add: append_cache_def)
    moreover from assms(1) Text have "s = [] \<or> last s = newline \<or> last s = creturn"
      "\<forall>l \<in> set (readlines s). well_formed l"
      by (simp_all add: file_well_formed_def)
    ultimately show ?thesis by (rule that)
  qed
  have rl: "readlines (s0 @ cache_lines nc) = readlines s0 @ map cache_line nc"
    using readlines_append [OF s0(1), of "cache_lines nc"] readlines_cache_lines [OF cl]
      cache_lines_chars [OF cl] by simp
  have "\<forall>l \<in> set (readlines s0 @ map cache_line nc). well_formed l"
    using s0(2) wf by auto
  from load_lines_well_formed [OF this, of "[]" c]
  have "cached (init f' c) = store_lines (map cache_line nc) (store_lines (readlines s0) c)"
    by (simp add: init_def load_cache_def f' rl store_lines_append)
  with store_cache_lines_hit [OF cl di assms(3)] have "cached (init f' c) h = Some v" by simp
  with f' rl mem show ?thesis by auto
qed

lemma run_expressions_succeeded:
  assumes "outcome (run_expressions T self f p1) = Inr out" and "tex_expr p1 \<noteq> []"
  shows "\<exists>st. rewrite T (cached self) (tex_preamble self) (tex_expr p1)
             \<lparr>page = p1, new_cache = [], idn = 0, calls = []\<rparr> = (st, None) \<and>
           append_cache f (cache_lines (new_cache st)) = Inr (file_after (run_expressions T self f p1))"
  using assms
  by (auto simp: run_expressions_def split: prod.splits option.splits sum.splits)

lemma step_new_cache_map:
  "map_of (new_cache (fst (step T cache tp x st))) =
     record_payload T cache tp (map_of (new_cache st)) x"
proof -
  obtain d m e where x: "x = (d, m, e)" by (cases x) auto
  show ?thesis
    unfolding x
    by (auto simp: step_def obtain_data_def latex_to_base64_def Let_def record_payload_def
        compiled_ok_def payload_of_def update_conv'
        split: sum.splits option.splits prod.splits if_splits)
qed

lemma rewrite_new_cache_map:
  "snd (rewrite T cache tp es st) = None \<Longrightarrow>
   map_of (new_cache (fst (rewrite T cache tp es st))) =
     foldl (record_payload T cache tp) (map_of (new_cache st)) es"
proof (induction es arbitrary: st)
  case Nil
  then show ?case by simp
next
  case (Cons x es)
  obtain st1 x1 where s1: "step T cache tp x st = (st1, x1)" by force
  from Cons.prems s1 have x1: "x1 = None" by (cases x1) auto
  with Cons.prems s1 have "snd (rewrite T cache tp es st1) = None" by simp
  note IH = Cons.IH [OF this]
  from step_new_cache_map [of T cache tp x st] s1
  have "map_of (new_cache st1) = record_payload T cache tp (map_of (new_cache st)) x" by simp
  with IH s1 x1 show ?case by simp
qed

lemma foldl_record_payload:
  "foldl (record_payload T cache tp) nc es h =
     (if filter (\<lambda>x. compiled_ok T cache tp x \<and> md5_hex T (snd (snd x)) = h) es = []
      then nc h else Some (stored_payload T cache tp es h))"
proof (induction es rule: rev_induct)
  case Nil
  then show ?case by simp
next
  case (snoc x es)
  show ?case
    using snoc.IH by (auto simp: record_payload_def stored_payload_def)
qed

lemma stored_payload_unique:
  assumes "x \<in> set es" "compiled_ok T cache tp x" "md5_hex T (snd (snd x)) = h"
    and "\<forall>y \<in> set es. md5_hex T (snd (snd y)) = h \<longrightarrow> snd y = snd x"
  shows "stored_payload T cache tp es h = payload_of T tp x"
proof -
  let ?P = "\<lambda>x. compiled_ok T cache tp x \<and> md5_hex T (snd (snd x)) = h"
  from assms(1-3) have ne: "filter ?P es \<noteq> []" by (auto simp: filter_empty_conv)
  then have "last (filter ?P es) \<in> set (filter ?P es)" by (rule last_in_set)
  then have "last (filter ?P es) \<in> set es" "md5_hex T (snd (snd (last (filter ?P es)))) = h"
    by auto
  with assms(4) have "snd (last (filter ?P es)) = snd x" by blast
  then show ?thesis by (simp add: stored_payload_def payload_of_def)
qed

lemma digit_char_not_bslash: "k < 10 \<Longrightarrow> digit_char k \<noteq> bslash"
proof
  assume k: "k < 10" and "digit_char k = bslash"
  then have "(of_char (digit_char k) :: nat) = of_char bslash" by simp
  with k show False by (simp add: digit_char_def)
qed

lemma str_nat_literal: "bslash \<notin> set (str_nat n)"
proof (induction n rule: str_nat.induct)
  case (1 n)
  show ?case
  proof (cases "n < 10")
    case True
    then show ?thesis using digit_char_not_bslash [of n] by (simp add: str_nat.simps [of n])
  next
    case False
    with 1 have "bslash \<notin> set (str_nat (n div 10))" by simp
    moreover have "digit_char (n mod 10) \<noteq> bslash" by (rule digit_char_not_bslash) simp
    ultimately show ?thesis using False by (simp add: str_nat.simps [of n])
  qed
qed

lemma image_tag_literal:
  "bslash \<notin> set h \<Longrightarrow> bslash \<notin> set v \<Longrightarrow> bslash \<notin> set (image_tag m h i v)"
  using str_nat_literal [of i]
  by (simp add: image_tag_def IMG_EXPR_def INLINE_IMG_EXPR_def)

lemma image_tag_inj: "image_tag m h i v = image_tag m h j v \<Longrightarrow> i = j"
  by (rule str_nat_inj) (simp add: image_tag_def IMG_EXPR_def INLINE_IMG_EXPR_def split: if_splits)

lemma image_tag_carries:
  "sublist v (image_tag m h i v) \<and> sublist (h @ ''_'' @ str_nat i) (image_tag m h i v)"
proof (cases m)
  case True
  have "image_tag m h i v =
      (''<img class='' @ [squote] @ ''math-true'' @ [squote] @ '' alt='' @ [squote] @ h @ [squote] @
        '' id='' @ [squote] @ (h @ ''_'' @ str_nat i) @ [squote] @ '' src='' @ [squote] @
        ''data:image/png;base64,'') @ v @ ([squote] @ ''>'')"
    using True by (simp add: image_tag_def INLINE_IMG_EXPR_def)
  moreover have "image_tag m h i v =
      (''<img class='' @ [squote] @ ''math-true'' @ [squote] @ '' alt='' @ [squote] @ h @ [squote] @
        '' id='' @ [squote]) @ (h @ ''_'' @ str_nat i) @ ([squote] @ '' src='' @ [squote] @
        ''data:image/png;base64,'' @ v @ [squote] @ ''>'')"
    using True by (simp add: image_tag_def INLINE_IMG_EXPR_def)
  ultimately show ?thesis unfolding sublist_def by metis
next
  case False
  have "image_tag m h i v =
      (''<div class='' @ [squote] @ ''latex-box math-false'' @ [squote] @
       ''><img class='' @ [squote, squote] @ '' alt='' @ [squote] @ h @ [squote] @
       '' id='' @ [squote] @ (h @ ''_'' @ str_nat i) @ [squote] @
       '' src='' @ [squote] @ ''data:image/png;base64,'') @ v @ ([squote] @ ''></div>'')"
    using False by (simp add: image_tag_def IMG_EXPR_def)
  moreover have "image_tag m h i v =
      (''<div class='' @ [squote] @ ''latex-box math-false'' @ [squote] @
       ''><img class='' @ [squote, squote] @ '' alt='' @ [squote] @ h @ [squote] @
       '' id='' @ [squote]) @ (h @ ''_'' @ str_nat i) @ ([squote] @
       '' src='' @ [squote] @ ''data:image/png;base64,'' @ v @ [squote] @ ''></div>'')"
    using False by (simp add: image_tag_def IMG_EXPR_def)
  ultimately show ?thesis unfolding sublist_def by metis
qed

lemma replacement_alt:
  "replacement m h i v = (if v \<noteq> [] then image_tag m h i v else ERROR_MARKER)"
  by (simp add: replacement_def image_tag_def ERROR_MARKER_def)

lemma step_cached_literal:
  assumes "cache (md5_hex T e) = Some v" "v \<noteq> []"
    and "bslash \<notin> set (md5_hex T e)" "bslash \<notin> set v"
  shows "step T cache tp (d, m, e) st =
     (st\<lparr>idn := idn st + 1,
         page := sub1 d (image_tag m (md5_hex T e) (idn st + 1) v) (page st)\<rparr>, None)"
proof -
  note sc = step_cached [where cache = cache and T = T and e = e and v = v, OF assms(1)]
  have "bslash \<notin> set (replacement m (md5_hex T e) (idn st + 1) v)"
    using assms(2-4) by (simp add: replacement_alt image_tag_literal)
  then show ?thesis using assms(2) by (simp add: sc re_sub_def replacement_alt)
qed

lemma step_cached_empty:
  assumes "cache (md5_hex T e) = Some []"
  shows "step T cache tp (d, m, e) st =
     (st\<lparr>idn := idn st + 1, page := sub1 d ERROR_MARKER (page st)\<rparr>, None)"
proof -
  note sc = step_cached [where cache = cache and T = T and e = e and v = "[]", OF assms]
  show ?thesis by (simp add: sc re_sub_def replacement_alt error_marker_literal)
qed

lemma rewrite_append:
  "rewrite T cache tp (xs @ ys) st =
     (case rewrite T cache tp xs st of
        (st', Some x) \<Rightarrow> (st', Some x)
      | (st', None) \<Rightarrow> rewrite T cache tp ys st')"
  by (induction xs arbitrary: st) (auto split: prod.splits option.splits)

abbreviation bsrun :: "nat \<Rightarrow> string" where
  "bsrun n \<equiv> replicate n bslash"

lemma run_decomp:
  "\<exists>n t. s = bsrun n @ t \<and> (t = [] \<or> hd t \<noteq> bslash)"
proof (induction s)
  case Nil
  show ?case by simp
next
  case (Cons c s)
  then obtain n t where nt: "s = bsrun n @ t" "t = [] \<or> hd t \<noteq> bslash" by blast
  show ?case
  proof (cases "c = bslash")
    case True
    with nt have "c # s = bsrun (Suc n) @ t" by simp
    with nt(2) show ?thesis by blast
  next
    case False
    then have "c # s = bsrun 0 @ (c # s) \<and> hd (c # s) \<noteq> bslash" by simp
    then show ?thesis by blast
  qed
qed

lemma strip_tok_run:
  assumes "tok \<noteq> []" "hd tok \<noteq> bslash" "t = [] \<or> hd t \<noteq> bslash"
  shows "strip_tok tok (bsrun n @ t) =
     bsrun (if 0 < n \<and> prefix tok t then n - 1 else n) @ strip_tok tok t"
proof (induction n)
  case 0
  show ?case by simp
next
  case (Suc n)
  show ?case
  proof (cases n)
    case 0
    then show ?thesis by simp
  next
    case (Suc k)
    have "\<not> prefix tok (bsrun n @ t)"
      using assms(1,2) Suc by (cases tok) auto
    with Suc.IH Suc show ?thesis by simp
  qed
qed

lemma halve_bslash_run:
  assumes "t = [] \<or> hd t \<noteq> bslash"
  shows "halve_bslash (bsrun n @ t) = bsrun ((n + 1) div 2) @ halve_bslash t"
proof (induction n rule: less_induct)
  case (less n)
  show ?case
  proof (cases n)
    case 0
    then show ?thesis by simp
  next
    case (Suc k)
    show ?thesis
    proof (cases k)
      case 0
      with Suc assms show ?thesis by (cases t) auto
    next
      case (Suc j)
      with less.IH [of j] \<open>n = Suc k\<close> show ?thesis by simp
    qed
  qed
qed

lemma unescape_once_other:
  "x \<noteq> bslash \<Longrightarrow> unescape_once (x # u) = x # unescape_once u"
  by (cases u) auto

lemma unescape_once_run:
  assumes "t = [] \<or> hd t \<noteq> bslash"
  shows "unescape_once (bsrun n @ t) =
     bsrun (n div 2 + (if odd n \<and> \<not> (prefix delim_text t \<or> prefix delim_math t) then 1 else 0)) @
     unescape_once t"
proof (induction n rule: less_induct)
  case (less n)
  show ?case
  proof (cases n)
    case 0
    then show ?thesis by simp
  next
    case (Suc k)
    show ?thesis
    proof (cases k)
      case 0
      with Suc assms show ?thesis
        by (cases t) (auto simp: unescape_once_other delim_text_def delim_math_def)
    next
      case (Suc j)
      with less.IH [of j] \<open>n = Suc k\<close> show ?thesis by simp
    qed
  qed
qed

lemma strip_tok_head:
  assumes "tok \<noteq> []" "hd tok \<noteq> bslash" "y \<noteq> bslash" "y \<noteq> hd tok"
  shows "prefix [y] (strip_tok tok u) = prefix [y] u"
proof (cases u)
  case Nil
  then show ?thesis by simp
next
  case (Cons c cs)
  show ?thesis
  proof (cases "c = bslash \<and> prefix tok cs")
    case True
    then obtain r where "cs = tok @ r" by (auto simp: prefix_def)
    with assms have "strip_tok tok cs = hd tok # strip_tok tok (tl tok @ r)"
      by (cases tok) auto
    with True Cons assms show ?thesis by simp
  next
    case False
    with Cons assms show ?thesis by auto
  qed
qed

lemma runs_ok_run: "runs_ok k (bsrun n @ t) = runs_ok (k + n) t"
  by (induction n arbitrary: k) auto

lemma takeWhile_run:
  "x \<noteq> bslash \<Longrightarrow> takeWhile (\<lambda>c. c = bslash) (bsrun f @ x # A) = bsrun f"
  by (induction f) auto

lemma run_differ:
  assumes "x \<noteq> bslash" "bsrun f @ x # A = bsrun g @ x # B"
  shows "f = g \<and> A = B"
proof -
  from assms(2) have "takeWhile (\<lambda>c. c = bslash) (bsrun f @ x # A) =
      takeWhile (\<lambda>c. c = bslash) (bsrun g @ x # B)" by simp
  then have "bsrun f = bsrun g" using assms(1) by (simp add: takeWhile_run)
  then have "f = g" by (metis length_replicate)
  with assms(2) show ?thesis by simp
qed

lemma run_count:
  fixes n :: nat
  assumes "pp \<longrightarrow> pt" "pt \<longrightarrow> \<not> pm"
  shows "((if 0 < (if 0 < (if 0 < n \<and> pp then n - 1 else n) \<and> pt
                   then (if 0 < n \<and> pp then n - 1 else n) - 1
                   else (if 0 < n \<and> pp then n - 1 else n)) \<and> pm
           then (if 0 < (if 0 < n \<and> pp then n - 1 else n) \<and> pt
                 then (if 0 < n \<and> pp then n - 1 else n) - 1
                 else (if 0 < n \<and> pp then n - 1 else n)) - 1
           else (if 0 < (if 0 < n \<and> pp then n - 1 else n) \<and> pt
                 then (if 0 < n \<and> pp then n - 1 else n) - 1
                 else (if 0 < n \<and> pp then n - 1 else n))) + 1) div 2 =
     (if 0 < n \<and> pp then (n - 1) div 2
      else if 0 < n \<and> (pt \<or> pm) then n div 2 else (n + 1) div 2)"
proof (cases pp)
  case True
  with assms have "pt" "\<not> pm" by auto
  with True show ?thesis by (cases "n = 0"; cases "n = 1"; simp; presburger)
next
  case False
  show ?thesis
  proof (cases pt)
    case True
    with assms have "\<not> pm" by auto
    with True False show ?thesis by (cases "n = 0"; simp; presburger)
  next
    case npt: False
    show ?thesis
    proof (cases pm)
      case True
      with False npt show ?thesis by (cases "n = 0"; simp; presburger)
    next
      case False
      with \<open>\<not> pp\<close> npt show ?thesis by simp
    qed
  qed
qed

lemma unescape_head_run:
  assumes "x \<noteq> bslash"
  shows "unescape (bsrun n @ x # r) =
     bsrun (if 0 < n \<and> prefix delim_preamble (x # r)
            then (n - 1) div 2
            else if 0 < n \<and> (prefix delim_text (x # r) \<or> prefix delim_math (x # r))
              then n div 2
            else (n + 1) div 2) @ x # unescape r"
proof -
  let ?u1 = "strip_tok delim_preamble r"
  let ?u2 = "strip_tok delim_text ?u1"
  let ?u3 = "strip_tok delim_math ?u2"
  let ?pp = "prefix delim_preamble (x # r)"
  let ?pt = "prefix delim_text (x # r)"
  let ?pm = "prefix delim_math (x # r)"
  let ?n1 = "if 0 < n \<and> ?pp then n - 1 else n"
  let ?n2 = "if 0 < ?n1 \<and> ?pt then ?n1 - 1 else ?n1"
  let ?n3 = "if 0 < ?n2 \<and> ?pm then ?n2 - 1 else ?n2"
  have t: "delim_preamble \<noteq> []" "hd delim_preamble \<noteq> bslash"
    "delim_text \<noteq> []" "hd delim_text \<noteq> bslash"
    "delim_math \<noteq> []" "hd delim_math \<noteq> bslash"
    by (simp_all add: delims)
  have s1: "strip_tok delim_preamble (bsrun n @ x # r) = bsrun ?n1 @ x # ?u1"
    using strip_tok_run [where tok = delim_preamble and t = "x # r" and n = n] t assms by simp
  have pt: "prefix delim_text (x # ?u1) = ?pt" by (simp add: delims)
  have s2: "strip_tok delim_text (bsrun ?n1 @ x # ?u1) = bsrun ?n2 @ x # ?u2"
    using strip_tok_run [where tok = delim_text and t = "x # ?u1" and n = ?n1] t assms pt by simp
  have "prefix [CHR 0xA3] ?u2 = prefix [CHR 0xA3] ?u1"
    by (rule strip_tok_head) (simp_all add: delims)
  also have "\<dots> = prefix [CHR 0xA3] r"
    by (rule strip_tok_head) (simp_all add: delims)
  finally have pm: "prefix delim_math (x # ?u2) = ?pm" by (simp add: delims)
  have s3: "strip_tok delim_math (bsrun ?n2 @ x # ?u2) = bsrun ?n3 @ x # ?u3"
    using strip_tok_run [where tok = delim_math and t = "x # ?u2" and n = ?n2] t assms pm by simp
  have s4: "halve_bslash (bsrun ?n3 @ x # ?u3) = bsrun ((?n3 + 1) div 2) @ x # halve_bslash ?u3"
    using halve_bslash_run [where t = "x # ?u3" and n = ?n3] assms by (simp add: halve_bslash_other)
  have ex: "?pp \<longrightarrow> ?pt" "?pt \<longrightarrow> \<not> ?pm"
    by (auto simp: delims)
  have cnt: "(?n3 + 1) div 2 =
     (if 0 < n \<and> ?pp then (n - 1) div 2
      else if 0 < n \<and> (?pt \<or> ?pm) then n div 2 else (n + 1) div 2)"
    using ex by (rule run_count)
  show ?thesis
    unfolding unescape_alt s1 s2 s3 s4 cnt ..
qed


lemma unescape_run_only: "unescape (bsrun n) = unescape_once (bsrun n)"
proof -
  have t: "delim_preamble \<noteq> []" "hd delim_preamble \<noteq> bslash"
    "delim_text \<noteq> []" "hd delim_text \<noteq> bslash"
    "delim_math \<noteq> []" "hd delim_math \<noteq> bslash"
    by (simp_all add: delims)
  have s: "\<And>tok. tok \<noteq> [] \<Longrightarrow> hd tok \<noteq> bslash \<Longrightarrow> strip_tok tok (bsrun n) = bsrun n"
    using strip_tok_run [where t = "[]" and n = n] by simp
  have "halve_bslash (bsrun n) = bsrun ((n + 1) div 2)"
    using halve_bslash_run [where t = "[]" and n = n] by simp
  moreover have "unescape_once (bsrun n) = bsrun (n div 2 + (if odd n then 1 else 0))"
    using unescape_once_run [where t = "[]" and n = n] by (simp add: delims)
  moreover have "(n + 1) div 2 = n div 2 + (if odd n then 1 else 0)"
    by (cases "odd n"; simp; presburger)
  ultimately show ?thesis by (simp add: unescape_alt s t)
qed

lemma run_eq_iff:
  "x \<noteq> bslash \<Longrightarrow> (bsrun f @ x # A = bsrun g @ x # B) = (f = g \<and> A = B)"
  using run_differ [of x f A g B] by auto

lemma count_agree:
  fixes n :: nat
  assumes "pp \<longrightarrow> pt" "pt \<longrightarrow> \<not> pm"
  shows "((if 0 < n \<and> pp then (n - 1) div 2
           else if 0 < n \<and> (pt \<or> pm) then n div 2 else (n + 1) div 2) =
          n div 2 + (if odd n \<and> \<not> (pt \<or> pm) then 1 else 0)) =
         (\<not> (0 < n \<and> even n \<and> pp))"
proof (cases pp)
  case True
  with assms have "pt" by auto
  with True show ?thesis by (cases "n = 0"; cases "even n"; simp; presburger)
next
  case False
  then show ?thesis by (cases "n = 0"; cases "even n"; cases "pt \<or> pm"; simp; presburger)
qed

lemma unescape_iff: "(unescape s = unescape_once s) = unescape_safe s"
proof (induction "length s" arbitrary: s rule: less_induct)
  case less
  from run_decomp [of s] obtain n t where s: "s = bsrun n @ t" and t: "t = [] \<or> hd t \<noteq> bslash"
    by blast
  show ?case
  proof (cases t)
    case Nil
    with s show ?thesis
      using runs_ok_run [of 0 n "[]"] by (simp add: unescape_run_only unescape_safe_def)
  next
    case (Cons x r)
    with t have x: "x \<noteq> bslash" by simp
    from s Cons have "length r < length s" by simp
    from less.hyps [OF this] have IH: "(unescape r = unescape_once r) = runs_ok 0 r"
      by (simp add: unescape_safe_def)
    let ?pp = "prefix delim_preamble (x # r)"
    let ?pt = "prefix delim_text (x # r)"
    let ?pm = "prefix delim_math (x # r)"
    let ?f = "if 0 < n \<and> ?pp then (n - 1) div 2
              else if 0 < n \<and> (?pt \<or> ?pm) then n div 2 else (n + 1) div 2"
    let ?g = "n div 2 + (if odd n \<and> \<not> (?pt \<or> ?pm) then 1 else 0)"
    have u: "unescape s = bsrun ?f @ x # unescape r"
      unfolding s Cons by (rule unescape_head_run [OF x])
    have o: "unescape_once s = bsrun ?g @ x # unescape_once r"
      unfolding s Cons
      using unescape_once_run [where t = "x # r" and n = n] x
      by (simp add: unescape_once_other)
    have ex: "?pp \<longrightarrow> ?pt" "?pt \<longrightarrow> \<not> ?pm" by (auto simp: delims)
    have c: "(?f = ?g) = (\<not> (0 < n \<and> even n \<and> ?pp))"
      using ex by (rule count_agree)
    have safe: "unescape_safe s = (\<not> (0 < n \<and> even n \<and> ?pp) \<and> runs_ok 0 r)"
      unfolding s Cons unescape_safe_def using runs_ok_run [of 0 n "x # r"] x by simp
    have "(unescape s = unescape_once s) = (?f = ?g \<and> unescape r = unescape_once r)"
      unfolding u o by (rule run_eq_iff [OF x])
    with c IH safe show ?thesis by simp
  qed
qed

section \<open>The claims\<close>

subsection \<open>C1\<close>

text \<open>
  Claim C1, as amended. For an expression whose hash is in the loaded cache a turn of the
  loop starts no subprocess and adds nothing to \<open>new_cache\<close>. With a non-empty cached
  payload, hash and payload without backslash, it replaces the first match of the
  expression's pattern still present in the page by the image tag of its mode, which
  contains the cached payload and the identifier made of the hash, an underscore and
  the counter; with the empty cached payload (the cache line made of a hash and a
  space) it puts \<open><p>ERROR</p>\<close> there instead. The counter of a turn is the position of
  its expression in the work list, so two occurrences of the same text get tags that
  differ, and differ in the identifier suffix only when the mode is the same. For an
  expression whose hash is not in the loaded cache, every turn starts the compiler once
  (and the rasterizer after a successful compile). A loop that is not left by an
  exception has started exactly the subprocesses of its expressions, in order.
\<close>

theorem cached_expression_never_recompiled:
  "(cache (md5_hex T E) = Some v \<longrightarrow>
      expr_calls T cache tp m E = [] \<and>
      calls (fst (step T cache tp (d, m, E) st)) = calls st \<and>
      new_cache (fst (step T cache tp (d, m, E) st)) = new_cache st \<and>
      step T cache tp (d, m, E) st =
        (case re_sub T d
                (if v \<noteq> [] then image_tag m (md5_hex T E) (idn st + 1) v else ERROR_MARKER)
                (page st) of
           Inl x \<Rightarrow> (st\<lparr>idn := idn st + 1\<rparr>, Some x)
         | Inr pg \<Rightarrow> (st\<lparr>idn := idn st + 1, page := pg\<rparr>, None))) \<and>
   (cache (md5_hex T E) = Some v \<and> v \<noteq> [] \<and> bslash \<notin> set (md5_hex T E) \<and> bslash \<notin> set v \<longrightarrow>
      step T cache tp (d, m, E) st =
        (st\<lparr>idn := idn st + 1,
            page := sub1 d (image_tag m (md5_hex T E) (idn st + 1) v) (page st)\<rparr>, None)) \<and>
   (cache (md5_hex T E) = Some [] \<longrightarrow>
      step T cache tp (d, m, E) st =
        (st\<lparr>idn := idn st + 1, page := sub1 d ERROR_MARKER (page st)\<rparr>, None)) \<and>
   sublist v (image_tag m (md5_hex T E) i v) \<and>
   sublist (md5_hex T E @ ''_'' @ str_nat i) (image_tag m (md5_hex T E) i v) \<and>
   (image_tag m (md5_hex T E) i v = image_tag m (md5_hex T E) j v \<longrightarrow> i = j) \<and>
   (i \<noteq> j \<longrightarrow> md5_hex T E @ ''_'' @ str_nat i \<noteq> md5_hex T E @ ''_'' @ str_nat j) \<and>
   (rewrite T cache tp xs st = (st', None) \<longrightarrow>
      idn st' = idn st + length xs \<and>
      rewrite T cache tp (xs @ (d, m, E) # ys) st =
        (case step T cache tp (d, m, E) st' of
           (st'', Some x) \<Rightarrow> (st'', Some x)
         | (st'', None) \<Rightarrow> rewrite T cache tp ys st'')) \<and>
   (cache (md5_hex T E) = None \<longrightarrow>
      expr_calls T cache tp m E =
        Latex (document tp E m) #
          (if latex T (document tp E m) = 0 then [Dvipng (document tp E m)] else [])) \<and>
   (snd (rewrite T cache tp es st) = None \<longrightarrow>
      calls (fst (rewrite T cache tp es st)) =
        calls st @ concat (map (\<lambda>(d, m, e). expr_calls T cache tp m e) es) \<and>
      idn (fst (rewrite T cache tp es st)) = idn st + length es)"
proof -
  have 1: "expr_calls T cache tp m E = [] \<and>
      calls (fst (step T cache tp (d, m, E) st)) = calls st \<and>
      new_cache (fst (step T cache tp (d, m, E) st)) = new_cache st \<and>
      step T cache tp (d, m, E) st =
        (case re_sub T d
                (if v \<noteq> [] then image_tag m (md5_hex T E) (idn st + 1) v else ERROR_MARKER)
                (page st) of
           Inl x \<Rightarrow> (st\<lparr>idn := idn st + 1\<rparr>, Some x)
         | Inr pg \<Rightarrow> (st\<lparr>idn := idn st + 1, page := pg\<rparr>, None))"
    if c: "cache (md5_hex T E) = Some v"
  proof -
    have a: "expr_calls T cache tp m E = []" using c by (simp add: expr_calls_def)
    have b: "calls (fst (step T cache tp (d, m, E) st)) = calls st"
      using step_effects [of T cache tp d m E st] a by simp
    note sc = step_cached [where cache = cache and T = T and e = E and v = v, OF c]
    have e: "new_cache (fst (step T cache tp (d, m, E) st)) = new_cache st"
      by (simp add: sc split: sum.splits)
    from a b e sc [of tp d m st] show ?thesis by (simp only: replacement_alt)
  qed
  have 2: "step T cache tp (d, m, E) st =
        (st\<lparr>idn := idn st + 1,
            page := sub1 d (image_tag m (md5_hex T E) (idn st + 1) v) (page st)\<rparr>, None)"
    if "cache (md5_hex T E) = Some v" "v \<noteq> []" "bslash \<notin> set (md5_hex T E)" "bslash \<notin> set v"
    using that
    by (rule step_cached_literal [where cache = cache and T = T and e = E and v = v])
  have 3: "step T cache tp (d, m, E) st =
        (st\<lparr>idn := idn st + 1, page := sub1 d ERROR_MARKER (page st)\<rparr>, None)"
    if "cache (md5_hex T E) = Some []"
    using that by (rule step_cached_empty [where cache = cache and T = T and e = E])
  note 4 = image_tag_carries [of v m "md5_hex T E" i]
  have 5: "image_tag m (md5_hex T E) i v = image_tag m (md5_hex T E) j v \<longrightarrow> i = j"
    using image_tag_inj by blast
  have 6: "i \<noteq> j \<longrightarrow> md5_hex T E @ ''_'' @ str_nat i \<noteq> md5_hex T E @ ''_'' @ str_nat j"
    using str_nat_inj [of i j] by auto
  have 7: "idn st' = idn st + length xs \<and>
      rewrite T cache tp (xs @ (d, m, E) # ys) st =
        (case step T cache tp (d, m, E) st' of
           (st'', Some x) \<Rightarrow> (st'', Some x)
         | (st'', None) \<Rightarrow> rewrite T cache tp ys st'')"
    if r: "rewrite T cache tp xs st = (st', None)"
  proof -
    from rewrite_effects [of T cache tp xs st] r have "idn st' = idn st + length xs" by simp
    moreover have "rewrite T cache tp (xs @ (d, m, E) # ys) st =
        (case step T cache tp (d, m, E) st' of
           (st'', Some x) \<Rightarrow> (st'', Some x)
         | (st'', None) \<Rightarrow> rewrite T cache tp ys st'')"
      by (simp add: rewrite_append r)
    ultimately show ?thesis by blast
  qed
  have 8: "expr_calls T cache tp m E =
        Latex (document tp E m) #
          (if latex T (document tp E m) = 0 then [Dvipng (document tp E m)] else [])"
    if "cache (md5_hex T E) = None"
    using that by (simp add: expr_calls_def latex_to_base64_def Let_def)
  from 1 2 3 4 5 6 7 8 rewrite_effects [of T cache tp es st] show ?thesis by blast
qed


theorem cached_expression_never_recompiled_witness:
  "warm_cache (md5_hex example_tools ''a'') = Some ''QUJD'' \<and>
   tex_expr (join [newline] twice_doc) = [(delim_text, False, ''a''), (delim_text, False, ''a'')] \<and>
   step example_tools warm_cache start_preamble (delim_text, False, ''a'')
       \<lparr>page = ''%a% %a%'', new_cache = [], idn = 0, calls = []\<rparr> =
     (\<lparr>page = image_tag False ''0cc175b9c0f1b6a831c399e269772661'' 1 ''QUJD'' @ '' %a%'',
        new_cache = [], idn = 1, calls = []\<rparr>, None) \<and>
   started (run example_tools \<lparr>cached = warm_cache, tex_preamble = base_preamble, general_preamble = []\<rparr>
     Missing twice_doc) = [] \<and>
   outcome (run example_tools \<lparr>cached = warm_cache, tex_preamble = base_preamble, general_preamble = []\<rparr>
     Missing twice_doc) =
     Inr [image_tag False ''0cc175b9c0f1b6a831c399e269772661'' 1 ''QUJD'' @ '' '' @
          image_tag False ''0cc175b9c0f1b6a831c399e269772661'' 2 ''QUJD''] \<and>
   image_tag False (md5_hex example_tools ''a'') 1 ''QUJD'' \<noteq>
     image_tag False (md5_hex example_tools ''a'') 2 ''QUJD'' \<and>
   empty_payload_cache (md5_hex example_tools ''a'') = Some [] \<and>
   step example_tools empty_payload_cache start_preamble (delim_text, False, ''a'')
       \<lparr>page = ''%a% %a%'', new_cache = [], idn = 0, calls = []\<rparr> =
     (\<lparr>page = ''<p>ERROR</p> %a%'', new_cache = [], idn = 1, calls = []\<rparr>, None) \<and>
   outcome (run example_tools
       \<lparr>cached = empty_payload_cache, tex_preamble = base_preamble, general_preamble = []\<rparr>
       Missing twice_doc) = Inr [''<p>ERROR</p> <p>ERROR</p>''] \<and>
   Map.empty (md5_hex example_tools ''a'') = None \<and>
   expr_calls example_tools Map.empty start_preamble False ''a'' =
     [Latex (document start_preamble ''a'' False), Dvipng (document start_preamble ''a'' False)]"
proof -
  let ?st0 = "\<lparr>page = ''%a% %a%'', new_cache = [], idn = 0, calls = []\<rparr>"
  have 1: "warm_cache (md5_hex example_tools ''a'') = Some ''QUJD''"
    by (simp add: warm_cache_def example_tools_def example_md5_def)
  have e1: "empty_payload_cache (md5_hex example_tools ''a'') = Some []"
    by (simp add: empty_payload_cache_def example_tools_def example_md5_def)
  have h: "md5_hex example_tools ''a'' = ''0cc175b9c0f1b6a831c399e269772661''"
    by (simp add: example_tools_def example_md5_def)
  have nb: "''QUJD'' \<noteq> [] \<and> bslash \<notin> set (md5_hex example_tools ''a'') \<and> bslash \<notin> set ''QUJD''"
    by (simp add: h)
  have 2: "tex_expr (join [newline] twice_doc) = [(delim_text, False, ''a''), (delim_text, False, ''a'')]"
    by code_simp
  have 3: "started (run example_tools \<lparr>cached = warm_cache, tex_preamble = base_preamble, general_preamble = []\<rparr>
     Missing twice_doc) = []"
    by code_simp
  have 4: "outcome (run example_tools \<lparr>cached = warm_cache, tex_preamble = base_preamble, general_preamble = []\<rparr>
     Missing twice_doc) =
     Inr [image_tag False ''0cc175b9c0f1b6a831c399e269772661'' 1 ''QUJD'' @ '' '' @
          image_tag False ''0cc175b9c0f1b6a831c399e269772661'' 2 ''QUJD'']"
    by code_simp
  have e4: "outcome (run example_tools
       \<lparr>cached = empty_payload_cache, tex_preamble = base_preamble, general_preamble = []\<rparr>
       Missing twice_doc) = Inr [''<p>ERROR</p> <p>ERROR</p>'']"
    by code_simp
  have 5: "latex example_tools (document start_preamble ''a'' False) = 0"
    by code_simp
  have 6: "(1::nat) \<noteq> 2" by simp
  have s1: "sub1 delim_text (image_tag False ''0cc175b9c0f1b6a831c399e269772661'' (Suc 0) ''QUJD'') ''%a% %a%'' =
      image_tag False ''0cc175b9c0f1b6a831c399e269772661'' (Suc 0) ''QUJD'' @ '' %a%''"
    by (simp add: sub1_def delim_text_def match_here_def group_close_def)
  have s2: "sub1 delim_text ERROR_MARKER ''%a% %a%'' = ''<p>ERROR</p> %a%''"
    by code_simp
  note t = cached_expression_never_recompiled [where T = example_tools and E = "''a''"
      and tp = start_preamble and m = False and d = delim_text and i = 1 and j = 2 and st = ?st0 and xs = "[]" and ys = "[]"
      and es = "[]" and st' = ?st0]
  from t [where cache = warm_cache and v = "''QUJD''"] 1 nb
  have a0: "step example_tools warm_cache start_preamble (delim_text, False, ''a'') ?st0 =
     (?st0\<lparr>idn := idn ?st0 + 1,
         page := sub1 delim_text (image_tag False (md5_hex example_tools ''a'') (idn ?st0 + 1) ''QUJD'')
           (page ?st0)\<rparr>, None)"
    by blast
  have a: "step example_tools warm_cache start_preamble (delim_text, False, ''a'') ?st0 =
     (\<lparr>page = image_tag False ''0cc175b9c0f1b6a831c399e269772661'' 1 ''QUJD'' @ '' %a%'',
        new_cache = [], idn = 1, calls = []\<rparr>, None)"
    unfolding a0 by (simp add: h s1)
  from t [where cache = warm_cache and v = "''QUJD''"] 6
  have b: "image_tag False (md5_hex example_tools ''a'') 1 ''QUJD'' \<noteq>
     image_tag False (md5_hex example_tools ''a'') 2 ''QUJD''"
    by blast
  from t [where cache = empty_payload_cache and v = "[]"] e1
  have e0: "step example_tools empty_payload_cache start_preamble (delim_text, False, ''a'') ?st0 =
     (?st0\<lparr>idn := idn ?st0 + 1, page := sub1 delim_text ERROR_MARKER (page ?st0)\<rparr>, None)"
    by blast
  have e: "step example_tools empty_payload_cache start_preamble (delim_text, False, ''a'') ?st0 =
     (\<lparr>page = ''<p>ERROR</p> %a%'', new_cache = [], idn = 1, calls = []\<rparr>, None)"
    unfolding e0 by (simp add: s2)
  have 7: "Map.empty (md5_hex example_tools ''a'') = None" by simp
  from t [where cache = Map.empty] 5 7
  have c: "expr_calls example_tools Map.empty start_preamble False ''a'' =
     [Latex (document start_preamble ''a'' False), Dvipng (document start_preamble ''a'' False)]"
    by simp
  from 1 e1 2 3 4 e4 a b c e 7 show ?thesis by blast
qed

text \<open>
  The claim C1 as stated fails for an expression that is not in the loaded cache: a
  fresh payload goes to \<open>new_cache\<close> only, the test looks in \<open>self.cached\<close>, and so the second
  occurrence of the same text starts the compiler again.
\<close>

theorem compiled_twice_counterexample:
  "tex_expr (join [newline] twice_doc) = [(delim_text, False, ''a''), (delim_text, False, ''a'')] \<and>
   started (run example_tools (init Missing Map.empty) Missing twice_doc) =
     [Latex (document start_preamble ''a'' False), Dvipng (document start_preamble ''a'' False),
      Latex (document start_preamble ''a'' False), Dvipng (document start_preamble ''a'' False)]"
proof -
  have 1: "tex_expr (join [newline] twice_doc) = [(delim_text, False, ''a''), (delim_text, False, ''a'')]"
    by code_simp
  have 2: "started (run example_tools (init Missing Map.empty) Missing twice_doc) =
     [Latex (document start_preamble ''a'' False), Dvipng (document start_preamble ''a'' False),
      Latex (document start_preamble ''a'' False), Dvipng (document start_preamble ''a'' False)]"
    by code_simp
  from 1 2 show ?thesis by blast
qed

subsection \<open>C2\<close>

text \<open>
  Claim C2. In every document and for each of the three delimiters, no match of the
  pattern opens or closes at a delimiter occurrence whose preceding character is a
  backslash (escaped or not: the lookbehind tests one character), every match is a pair
  of delimiter occurrences around a non-empty group, and \<open>findall\<close> returns exactly the
  groups of these matches. In particular an escaped math delimiter directly followed by
  an unescaped pair around \<open>g\<close> yields the single expression \<open>g\<close>.
\<close>

theorem escaped_delimiter_never_boundary:
  assumes "d \<in> {delim_text, delim_math, delim_preamble}"
  shows "(\<forall>ij \<in> set (match_spans d False 0 s).
            span_ok d s ij \<and>
            (\<forall>i. escaped_at s i \<longrightarrow> i \<noteq> fst ij \<and> i \<noteq> snd ij)) \<and>
         findall d s = map (group_at d s) (match_spans d False 0 s) \<and>
         (g \<noteq> [] \<and> CHR 0xC2 \<notin> set g \<and> last g \<noteq> bslash \<longrightarrow>
            findall delim_math (bslash # delim_math @ delim_math @ g @ delim_math) = [g])"
proof -
  from assms have d: "d \<noteq> []"
    by (auto simp: delim_text_def delim_math_def delim_preamble_def)
  have "False = (([]::string) \<noteq> [] \<and> last ([]::string) = bslash)" by simp
  from match_spans_sound [OF d this, of s]
  have ok: "\<forall>ij \<in> set (match_spans d False 0 s). span_ok d s ij"
    and fa: "findall d s = map (group_at d s) (match_spans d False 0 s)"
    by (auto simp: findall_def)
  from ok have "\<forall>ij \<in> set (match_spans d False 0 s).
      \<forall>i. escaped_at s i \<longrightarrow> i \<noteq> fst ij \<and> i \<noteq> snd ij"
    by (auto simp: span_ok_def)
  with ok fa escaped_math_example [of g] show ?thesis by blast
qed

theorem escaped_delimiter_never_boundary_witness:
  "delim_math \<in> {delim_text, delim_math, delim_preamble} \<and>
   match_spans delim_math False 0 (bslash # delim_math @ delim_math @ ''x'' @ delim_math) = [(3, 6)] \<and>
   escaped_at (bslash # delim_math @ delim_math @ ''x'' @ delim_math) 1 \<and>
   delim_at delim_math (bslash # delim_math @ delim_math @ ''x'' @ delim_math) 1 \<and>
   findall delim_math (bslash # delim_math @ delim_math @ ''x'' @ delim_math) = [''x'']"
proof -
  have 1: "match_spans delim_math False 0 (bslash # delim_math @ delim_math @ ''x'' @ delim_math) = [(3, 6)]"
    by code_simp
  have 2: "escaped_at (bslash # delim_math @ delim_math @ ''x'' @ delim_math) 1"
    by code_simp
  have 3: "delim_at delim_math (bslash # delim_math @ delim_math @ ''x'' @ delim_math) 1"
    by code_simp
  have 4: "''x'' \<noteq> [] \<and> CHR 0xC2 \<notin> set ''x'' \<and> last ''x'' \<noteq> bslash" by simp
  from escaped_delimiter_never_boundary [of delim_math "bslash # delim_math @ delim_math @ ''x'' @ delim_math" "''x''"] 1 2 3 4
  show ?thesis by blast
qed

subsection \<open>C3\<close>

text \<open>
  Claim C3, as amended. Let the digests and payloads be free of spaces and line ends (as
  hexadecimal digests and base64 texts are), and let the cache file before run N be
  missing, or be a text that is empty or ends with a line end and has only well-formed
  lines. If run N returns lines and one of its turns compiled and rasterized an uncached
  expression \<open>E\<close> with exit status 0, then the file it leaves holds the line made of the
  hash of \<open>E\<close> and the payload of the last successful compile, in run N, of an expression
  with this hash: the payload of \<open>E\<close> itself when every work-list entry with this hash is
  \<open>E\<close> in the same mode. An instance constructed from that file has exactly this payload
  in its cache under the hash, and a turn of its loop for \<open>E\<close> starts no subprocess and
  substitutes the text built from this payload.
\<close>

theorem cache_round_trip:
  assumes "\<forall>x. clean (md5_hex T x) \<and> clean (png_base64 T x)"
    and "file_well_formed f"
    and "outcome (run T self f lns) = Inr out"
    and "(d, m, E) \<in> set (tex_expr (strip_matches delim_preamble False (join [newline] lns)))"
    and "cached self (md5_hex T E) = None"
    and "latex T (document (run_preamble self lns) E m) = 0"
    and "dvipng T (document (run_preamble self lns) E m) = 0"
  shows "(\<exists>s'. file_after (run T self f lns) = Text s' \<and>
            cache_line (md5_hex T E,
                stored_payload T (cached self) (run_preamble self lns)
                  (tex_expr (strip_matches delim_preamble False (join [newline] lns))) (md5_hex T E))
              \<in> set (readlines s')) \<and>
         cached (init (file_after (run T self f lns)) c) (md5_hex T E) =
           Some (stored_payload T (cached self) (run_preamble self lns)
                  (tex_expr (strip_matches delim_preamble False (join [newline] lns))) (md5_hex T E)) \<and>
         ((\<forall>y \<in> set (tex_expr (strip_matches delim_preamble False (join [newline] lns))).
              md5_hex T (snd (snd y)) = md5_hex T E \<longrightarrow> snd y = (m, E)) \<longrightarrow>
            stored_payload T (cached self) (run_preamble self lns)
              (tex_expr (strip_matches delim_preamble False (join [newline] lns))) (md5_hex T E) =
            png_base64 T (document (run_preamble self lns) E m)) \<and>
         expr_calls T (cached (init (file_after (run T self f lns)) c)) tp' m' E = [] \<and>
         calls (fst (step T (cached (init (file_after (run T self f lns)) c)) tp' (d', m', E) st)) =
           calls st \<and>
         step T (cached (init (file_after (run T self f lns)) c)) tp' (d', m', E) st =
           (case re_sub T d'
                   (replacement m' (md5_hex T E) (idn st + 1)
                      (stored_payload T (cached self) (run_preamble self lns)
                         (tex_expr (strip_matches delim_preamble False (join [newline] lns)))
                         (md5_hex T E)))
                   (page st) of
              Inl x \<Rightarrow> (st\<lparr>idn := idn st + 1\<rparr>, Some x)
            | Inr pg \<Rightarrow> (st\<lparr>idn := idn st + 1, page := pg\<rparr>, None))"
proof -
  let ?self = "self\<lparr>tex_preamble := run_preamble self lns\<rparr>"
  let ?p1 = "strip_matches delim_preamble False (join [newline] lns)"
  let ?st0 = "\<lparr>page = ?p1, new_cache = [], idn = 0, calls = []\<rparr>"
  let ?tp = "run_preamble self lns"
  let ?h = "md5_hex T E"
  let ?v = "stored_payload T (cached self) ?tp (tex_expr ?p1) ?h"
  let ?c2 = "cached (init (file_after (run T self f lns)) c)"
  have ru: "run T self f lns = run_expressions T ?self f ?p1" by (rule run_unfold)
  from assms(4) have ne: "tex_expr ?p1 \<noteq> []" by auto
  from run_expressions_succeeded [OF assms(3) [unfolded ru] ne]
  obtain st1 where rw: "rewrite T (cached self) ?tp (tex_expr ?p1) ?st0 = (st1, None)"
    and ap: "append_cache f (cache_lines (new_cache st1)) = Inr (file_after (run T self f lns))"
    by (auto simp: ru)
  have "nc_ok (new_cache ?st0)" by (simp add: nc_ok_def)
  from rewrite_new_cache [OF assms(1) this, of "cached self" ?tp "tex_expr ?p1"] rw
  have ok: "nc_ok (new_cache st1)" by simp
  have cok: "compiled_ok T (cached self) ?tp (d, m, E)"
    using assms(5-7) by (simp add: compiled_ok_def)
  with assms(4) have fne: "filter (\<lambda>x. compiled_ok T (cached self) ?tp x \<and>
      md5_hex T (snd (snd x)) = ?h) (tex_expr ?p1) \<noteq> []"
    by (auto simp: filter_empty_conv)
  from rewrite_new_cache_map [of T "cached self" ?tp "tex_expr ?p1" ?st0] rw
  have "map_of (new_cache st1) = foldl (record_payload T (cached self) ?tp) Map.empty (tex_expr ?p1)"
    by simp
  with foldl_record_payload [of T "cached self" ?tp Map.empty "tex_expr ?p1" ?h] fne
  have v: "map_of (new_cache st1) ?h = Some ?v" by simp
  from init_after_append [OF assms(2) ok v ap, of c]
  have 1: "\<exists>s'. file_after (run T self f lns) = Text s' \<and> cache_line (?h, ?v) \<in> set (readlines s')"
    and 2: "?c2 ?h = Some ?v" by blast+
  have 3: "?v = png_base64 T (document ?tp E m)"
    if "\<forall>y \<in> set (tex_expr ?p1). md5_hex T (snd (snd y)) = ?h \<longrightarrow> snd y = (m, E)"
    using stored_payload_unique [OF assms(4) cok, of ?h] that by (simp add: payload_of_def)
  have 4: "expr_calls T ?c2 tp' m' E = []"
    using 2 by (simp add: expr_calls_def)
  have 5: "calls (fst (step T ?c2 tp' (d', m', E) st)) = calls st"
    using step_effects [of T ?c2 tp' d' m' E st] 4 by simp
  note 6 = step_cached [where cache = ?c2 and T = T and e = E and v = ?v, OF 2, of tp' d' m' st]
  from 1 2 3 4 5 6 show ?thesis by blast
qed


theorem cache_round_trip_witness:
  "file_well_formed (Text crlf_cache) \<and>
   readlines crlf_cache = [''k v'' @ [newline]] \<and>
   (delim_text, False, ''a'') \<in> set (tex_expr (strip_matches delim_preamble False (join [newline] once_doc))) \<and>
   cached (init (Text crlf_cache) Map.empty) (md5_hex example_tools ''a'') = None \<and>
   latex example_tools (document (run_preamble (init (Text crlf_cache) Map.empty) once_doc) ''a'' False) = 0 \<and>
   dvipng example_tools (document (run_preamble (init (Text crlf_cache) Map.empty) once_doc) ''a'' False) = 0 \<and>
   outcome (run example_tools (init (Text crlf_cache) Map.empty) (Text crlf_cache) once_doc) =
     Inr [IMG_EXPR ''0cc175b9c0f1b6a831c399e269772661'' ''0cc175b9c0f1b6a831c399e269772661_1'' ''iVBORw0KGgo=''] \<and>
   file_after (run example_tools (init (Text crlf_cache) Map.empty) (Text crlf_cache) once_doc) =
     Text (crlf_cache @ cache_text_a) \<and>
   cached (init (file_after (run example_tools (init (Text crlf_cache) Map.empty) (Text crlf_cache) once_doc))
       Map.empty) (md5_hex example_tools ''a'') = Some ''iVBORw0KGgo='' \<and>
   expr_calls example_tools
     (cached (init (file_after (run example_tools (init (Text crlf_cache) Map.empty) (Text crlf_cache) once_doc))
        Map.empty))
     start_preamble False ''a'' = [] \<and>
   started (run example_tools (init (Text (crlf_cache @ cache_text_a)) Map.empty)
     (Text (crlf_cache @ cache_text_a)) once_doc) = [] \<and>
   outcome (run example_tools (init (Text (crlf_cache @ cache_text_a)) Map.empty)
     (Text (crlf_cache @ cache_text_a)) once_doc) =
     Inr [IMG_EXPR ''0cc175b9c0f1b6a831c399e269772661'' ''0cc175b9c0f1b6a831c399e269772661_1'' ''iVBORw0KGgo='']"
proof -
  let ?self = "init (Text crlf_cache) Map.empty"
  let ?p1 = "strip_matches delim_preamble False (join [newline] once_doc)"
  have h1: "\<forall>x. clean (md5_hex example_tools x) \<and> clean (png_base64 example_tools x)"
    by (simp add: example_tools_def example_md5_def clean_def)
  have h2: "file_well_formed (Text crlf_cache)" by code_simp
  have rl: "readlines crlf_cache = [''k v'' @ [newline]]" by code_simp
  have h3: "outcome (run example_tools ?self (Text crlf_cache) once_doc) =
     Inr [IMG_EXPR ''0cc175b9c0f1b6a831c399e269772661'' ''0cc175b9c0f1b6a831c399e269772661_1'' ''iVBORw0KGgo='']"
    by code_simp
  have h4: "(delim_text, False, ''a'') \<in> set (tex_expr ?p1)"
    by code_simp
  have h5: "cached ?self (md5_hex example_tools ''a'') = None"
    by code_simp
  have h6: "latex example_tools (document (run_preamble ?self once_doc) ''a'' False) = 0"
    by code_simp
  have h7: "dvipng example_tools (document (run_preamble ?self once_doc) ''a'' False) = 0"
    by (simp add: example_tools_def)
  have f: "file_after (run example_tools ?self (Text crlf_cache) once_doc) = Text (crlf_cache @ cache_text_a)"
    by code_simp
  have v: "stored_payload example_tools (cached ?self) (run_preamble ?self once_doc) (tex_expr ?p1)
      (md5_hex example_tools ''a'') = ''iVBORw0KGgo=''"
    by (simp add: stored_payload_def payload_of_def example_tools_def)
  have s: "started (run example_tools (init (Text (crlf_cache @ cache_text_a)) Map.empty)
     (Text (crlf_cache @ cache_text_a)) once_doc) = []"
    by code_simp
  have o: "outcome (run example_tools (init (Text (crlf_cache @ cache_text_a)) Map.empty)
     (Text (crlf_cache @ cache_text_a)) once_doc) =
     Inr [IMG_EXPR ''0cc175b9c0f1b6a831c399e269772661'' ''0cc175b9c0f1b6a831c399e269772661_1'' ''iVBORw0KGgo='']"
    by code_simp
  note t = cache_round_trip [OF h1 h2 h3 h4 h5 h6 h7, of Map.empty start_preamble False]
  from t v have a: "cached (init (file_after (run example_tools ?self (Text crlf_cache) once_doc))
       Map.empty) (md5_hex example_tools ''a'') = Some ''iVBORw0KGgo=''"
    by simp
  from t have b: "expr_calls example_tools
     (cached (init (file_after (run example_tools ?self (Text crlf_cache) once_doc)) Map.empty))
     start_preamble False ''a'' = []"
    by blast
  from h2 rl h3 h4 h5 h6 h7 f a b s o show ?thesis by blast
qed

text \<open>
  The claim C3 as stated fails when the cache file has a malformed line before the new
  entry: run N appends the entry behind it, the load of run N+1 stops at the malformed
  line, and the expression is compiled again.
\<close>

theorem cache_round_trip_counterexample:
  "file_after (run example_tools (init (Text (''x'' @ [newline])) Map.empty) (Text (''x'' @ [newline])) once_doc) =
     Text (''x'' @ [newline] @ cache_text_a) \<and>
   started (run example_tools (init (Text (''x'' @ [newline] @ cache_text_a)) Map.empty)
       (Text (''x'' @ [newline] @ cache_text_a)) once_doc) =
     [Latex (document start_preamble ''a'' False), Dvipng (document start_preamble ''a'' False)]"
proof -
  have 1: "file_after (run example_tools (init (Text (''x'' @ [newline])) Map.empty) (Text (''x'' @ [newline])) once_doc) =
     Text (''x'' @ [newline] @ cache_text_a)"
    by code_simp
  have 2: "started (run example_tools (init (Text (''x'' @ [newline] @ cache_text_a)) Map.empty)
       (Text (''x'' @ [newline] @ cache_text_a)) once_doc) =
     [Latex (document start_preamble ''a'' False), Dvipng (document start_preamble ''a'' False)]"
    by code_simp
  from 1 2 show ?thesis by blast
qed

subsection \<open>C4\<close>

text \<open>
  Claim C4. When the joined document has no preamble match and no text-mode or math-mode
  match, \<open>run\<close> returns the split of the joined lines, starts no subprocess and leaves the
  cache file untouched (the un-escaping is skipped too). For a non-empty list of lines
  without embedded newlines the returned lines are the given ones.
\<close>

theorem no_regions_is_identity:
  assumes "findall delim_preamble (join [newline] lns) = []"
    and "tex_expr (join [newline] lns) = []"
  shows "outcome (run T self f lns) = Inr (split newline (join [newline] lns)) \<and>
         started (run T self f lns) = [] \<and>
         file_after (run T self f lns) = f \<and>
         (lns \<noteq> [] \<and> (\<forall>l \<in> set lns. newline \<notin> set l) \<longrightarrow>
            outcome (run T self f lns) = Inr lns)"
proof -
  have "outcome (run T self f lns) = Inr (split newline (join [newline] lns))"
    "started (run T self f lns) = []" "file_after (run T self f lns) = f"
    using assms by (simp_all add: run_def run_expressions_def Let_def)
  then show ?thesis by (simp add: split_join)
qed


theorem no_regions_is_identity_witness:
  "findall delim_preamble (join [newline] [''a '' @ [bslash] @ ''% b'', ''c'']) = [] \<and>
   tex_expr (join [newline] [''a '' @ [bslash] @ ''% b'', ''c'']) = [] \<and>
   outcome (run example_tools (init Missing Map.empty) Missing [''a '' @ [bslash] @ ''% b'', ''c'']) = Inr [''a '' @ [bslash] @ ''% b'', ''c''] \<and>
   started (run example_tools (init Missing Map.empty) Missing [''a '' @ [bslash] @ ''% b'', ''c'']) = [] \<and>
   file_after (run example_tools (init Missing Map.empty) Missing [''a '' @ [bslash] @ ''% b'', ''c'']) = Missing"
proof -
  have 1: "findall delim_preamble (join [newline] [''a '' @ [bslash] @ ''% b'', ''c'']) = []"
    by code_simp
  have 2: "tex_expr (join [newline] [''a '' @ [bslash] @ ''% b'', ''c'']) = []"
    by code_simp
  have 3: "[''a '' @ [bslash] @ ''% b'', ''c''] \<noteq> [] \<and>
      (\<forall>l \<in> set [''a '' @ [bslash] @ ''% b'', ''c'']. newline \<notin> set l)"
    by simp
  from no_regions_is_identity [OF 1 2, of example_tools "init Missing Map.empty" Missing] 1 2 3 show ?thesis by blast
qed

subsection \<open>C5\<close>

text \<open>
  Claim C5, as amended. When the hash of an expression is not in the loaded cache and
  \<open>latex\<close> exits non-zero on its document, the turn of the loop starts only that one
  subprocess, creates no cache entry, raises nothing, and the loop goes on with the
  remaining expressions on the page in which the first match of the expression's
  pattern still present has been replaced by \<open><p>ERROR</p>\<close>. For the first expression of
  the work list that match is the expression's own region; when no match is left the
  page stays as it is.
\<close>

theorem failed_compile_is_local:
  assumes "cache (md5_hex T expr) = None" and "latex T (document tp expr m) \<noteq> 0"
  shows "step T cache tp (d, m, expr) st =
           (st\<lparr>idn := idn st + 1, calls := calls st @ [Latex (document tp expr m)],
               page := sub1 d ERROR_MARKER (page st)\<rparr>, None) \<and>
         new_cache (fst (step T cache tp (d, m, expr) st)) = new_cache st \<and>
         rewrite T cache tp ((d, m, expr) # es) st =
           rewrite T cache tp es
             (st\<lparr>idn := idn st + 1, calls := calls st @ [Latex (document tp expr m)],
                 page := sub1 d ERROR_MARKER (page st)\<rparr>) \<and>
         (search d False (page st) = None \<longrightarrow> sub1 d ERROR_MARKER (page st) = page st) \<and>
         (tex_expr (page st) = (d, m, expr) # es \<longrightarrow>
            (\<exists>p r. page st = p @ d @ expr @ d @ r \<and>
               sub1 d ERROR_MARKER (page st) = p @ ''<p>ERROR</p>'' @ r))"
proof -
  note s = step_compile_failed [where cache = cache and T = T and expr = expr and tp = tp and m = m and d = d and st = st, OF assms]
  have 1: "new_cache (fst (step T cache tp (d, m, expr) st)) = new_cache st"
    by (simp add: s)
  have 2: "rewrite T cache tp ((d, m, expr) # es) st =
           rewrite T cache tp es
             (st\<lparr>idn := idn st + 1, calls := calls st @ [Latex (document tp expr m)],
                 page := sub1 d ERROR_MARKER (page st)\<rparr>)"
    by (simp add: s)
  have 3: "search d False (page st) = None \<longrightarrow> sub1 d ERROR_MARKER (page st) = page st"
    by (simp add: sub1_def)
  have 4: "\<exists>p r. page st = p @ d @ expr @ d @ r \<and>
               sub1 d ERROR_MARKER (page st) = p @ ''<p>ERROR</p>'' @ r"
    if "tex_expr (page st) = (d, m, expr) # es"
  proof -
    from tex_expr_head [OF that] obtain p r where sr: "search d False (page st) = Some (p, expr, r)"
      by blast
    from search_decomp [OF sr] sr show ?thesis
      by (auto simp: sub1_def ERROR_MARKER_def)
  qed
  from s 1 2 3 4 show ?thesis by blast
qed

theorem failed_compile_is_local_witness:
  "Map.empty (md5_hex example_tools ''b'') = None \<and>
   latex example_tools (document start_preamble ''b'' True) \<noteq> 0 \<and>
   tex_expr math_only_doc = [(delim_math, True, ''b'')] \<and>
   rewrite example_tools Map.empty start_preamble [(delim_math, True, ''b'')]
       \<lparr>page = math_only_doc, new_cache = [], idn = 0, calls = []\<rparr> =
     (\<lparr>page = ''<p>ERROR</p> x'', new_cache = [], idn = 1,
        calls = [Latex (document start_preamble ''b'' True)]\<rparr>, None) \<and>
   outcome (run example_tools (init Missing Map.empty) Missing [math_only_doc]) = Inr [''<p>ERROR</p> x''] \<and>
   file_after (run example_tools (init Missing Map.empty) Missing [math_only_doc]) = Text []"
proof -
  have 1: "Map.empty (md5_hex example_tools ''b'') = None" by simp
  have 2: "latex example_tools (document start_preamble ''b'' True) \<noteq> 0"
    by (simp add: example_tools_def document_def)
  have 3: "tex_expr math_only_doc = [(delim_math, True, ''b'')]" by code_simp
  have 4: "sub1 delim_math ERROR_MARKER math_only_doc = ''<p>ERROR</p> x''" by code_simp
  have 5: "outcome (run example_tools (init Missing Map.empty) Missing [math_only_doc]) = Inr [''<p>ERROR</p> x'']"
    by code_simp
  have 6: "file_after (run example_tools (init Missing Map.empty) Missing [math_only_doc]) = Text []"
    by code_simp
  from failed_compile_is_local [where cache = Map.empty and T = example_tools and expr = "''b''"
      and tp = start_preamble and m = True and d = delim_math and es = "[]"
      and st = "\<lparr>page = math_only_doc, new_cache = [], idn = 0, calls = []\<rparr>"] 2
  have "rewrite example_tools Map.empty start_preamble [(delim_math, True, ''b'')]
       \<lparr>page = math_only_doc, new_cache = [], idn = 0, calls = []\<rparr> =
     (\<lparr>page = ''<p>ERROR</p> x'', new_cache = [], idn = 1,
        calls = [Latex (document start_preamble ''b'' True)]\<rparr>, None)"
    by (simp add: 4)
  with 1 2 3 5 6 show ?thesis by blast
qed

text \<open>
  The claim C5 as stated fails where a math-mode region lies inside a text-mode region.
  The text-mode expression is substituted first, the match of the math-mode expression
  is gone with it, and the marker of the failed math-mode compile is put nowhere: the
  returned document has no error marker.
\<close>

theorem failed_compile_marker_counterexample:
  "(delim_math, True, ''b'') \<in> set (tex_expr (join [newline] nested_doc)) \<and>
   latex example_tools (document start_preamble ''b'' True) = 1 \<and>
   Latex (document start_preamble ''b'' True) \<in>
     set (started (run example_tools (init Missing Map.empty) Missing nested_doc)) \<and>
   outcome (run example_tools (init Missing Map.empty) Missing nested_doc) =
     Inr [IMG_EXPR ''2b7fdd758229fb43d878376e4a9be1ec'' ''2b7fdd758229fb43d878376e4a9be1ec_1'' ''iVBORw0KGgo=''] \<and>
   \<not> sublist ''<p>ERROR</p>''
     (IMG_EXPR ''2b7fdd758229fb43d878376e4a9be1ec'' ''2b7fdd758229fb43d878376e4a9be1ec_1'' ''iVBORw0KGgo='')"
proof -
  have 1: "(delim_math, True, ''b'') \<in> set (tex_expr (join [newline] nested_doc))" by code_simp
  have 2: "latex example_tools (document start_preamble ''b'' True) = 1"
    by (simp add: example_tools_def document_def)
  have 3: "Latex (document start_preamble ''b'' True) \<in>
     set (started (run example_tools (init Missing Map.empty) Missing nested_doc))" by code_simp
  have 4: "outcome (run example_tools (init Missing Map.empty) Missing nested_doc) =
     Inr [IMG_EXPR ''2b7fdd758229fb43d878376e4a9be1ec'' ''2b7fdd758229fb43d878376e4a9be1ec_1'' ''iVBORw0KGgo='']"
    by code_simp
  have 5: "\<not> sublist ''<p>ERROR</p>''
     (IMG_EXPR ''2b7fdd758229fb43d878376e4a9be1ec'' ''2b7fdd758229fb43d878376e4a9be1ec_1'' ''iVBORw0KGgo='')"
    by code_simp
  from 1 2 3 4 5 show ?thesis by blast
qed

subsection \<open>C6\<close>

text \<open>
  Claim C6. The sequence consumed by the rewriter is the text-mode matches followed by
  the math-mode matches; inside each class the expressions are the groups of the
  matches taken at strictly increasing, non-overlapping positions of the page.
\<close>

theorem text_matches_listed_before_math_matches:
  "tex_expr s =
     map (\<lambda>ij. (delim_text, False, group_at delim_text s ij)) (match_spans delim_text False 0 s) @
     map (\<lambda>ij. (delim_math, True, group_at delim_math s ij)) (match_spans delim_math False 0 s) \<and>
   sorted_wrt (\<lambda>a b. snd a + length delim_text \<le> fst b) (match_spans delim_text False 0 s) \<and>
   sorted_wrt (\<lambda>a b. snd a + length delim_math \<le> fst b) (match_spans delim_math False 0 s)"
proof -
  have e: "False = (([]::string) \<noteq> [] \<and> last ([]::string) = bslash)" by simp
  have t: "delim_text \<noteq> []" and m: "delim_math \<noteq> []"
    by (simp_all add: delim_text_def delim_math_def)
  from match_spans_sound [OF t e, of s] match_spans_sound [OF m e, of s]
  show ?thesis by (simp add: tex_expr_def findall_def)
qed

theorem text_matches_listed_before_math_matches_witness:
  "tex_expr (delim_math @ ''a'' @ delim_math @ '' %b% '' @ delim_math @ ''c'' @ delim_math @ ''%d%'') =
     [(delim_text, False, ''b''), (delim_text, False, ''d''),
      (delim_math, True, ''a''), (delim_math, True, ''c'')] \<and>
   match_spans delim_text False 0 (delim_math @ ''a'' @ delim_math @ '' %b% '' @ delim_math @ ''c'' @ delim_math @ ''%d%'') = [(6, 8), (15, 17)] \<and>
   match_spans delim_math False 0 (delim_math @ ''a'' @ delim_math @ '' %b% '' @ delim_math @ ''c'' @ delim_math @ ''%d%'') = [(0, 3), (10, 13)]"
proof -
  have 1: "match_spans delim_text False 0 (delim_math @ ''a'' @ delim_math @ '' %b% '' @ delim_math @ ''c'' @ delim_math @ ''%d%'') = [(6, 8), (15, 17)]"
    by code_simp
  have 2: "match_spans delim_math False 0 (delim_math @ ''a'' @ delim_math @ '' %b% '' @ delim_math @ ''c'' @ delim_math @ ''%d%'') = [(0, 3), (10, 13)]"
    by code_simp
  from text_matches_listed_before_math_matches [of "delim_math @ ''a'' @ delim_math @ '' %b% '' @ delim_math @ ''c'' @ delim_math @ ''%d%''"]
  show ?thesis unfolding 1 2 by (simp add: group_at_def delim_text_def delim_math_def)
qed

subsection \<open>C7\<close>

text \<open>
  Claim C7. The preamble phase deletes every preamble match of the joined document (the
  one-match-at-a-time deletions of the loop remove exactly the matches that \<open>findall\<close>
  saw, and no preamble match is left), appends the captured fragments in document order,
  each followed by a newline, to the preamble, and everything after it - extraction,
  rewriting, output - works on the page without these regions. Every subprocess of the
  call is started on a document that begins with this preamble.
\<close>

theorem preamble_regions_absorbed:
  "run T self f lns =
     run_expressions T
       (self\<lparr>tex_preamble := tex_preamble self @ general_preamble self @
          concat (map (\<lambda>p. p @ [newline]) (findall delim_preamble (join [newline] lns))) @
          [newline, bslash] @ ''begin{document}'' @ [newline]\<rparr>)
       f (strip_matches delim_preamble False (join [newline] lns)) \<and>
   findall delim_preamble (strip_matches delim_preamble False (join [newline] lns)) = [] \<and>
   (\<forall>c \<in> set (started (run T self f lns)).
      \<exists>e \<in> set (tex_expr (strip_matches delim_preamble False (join [newline] lns))).
        call_doc c =
          document (tex_preamble self @ general_preamble self @
            concat (map (\<lambda>p. p @ [newline]) (findall delim_preamble (join [newline] lns))) @
            [newline, bslash] @ ''begin{document}'' @ [newline]) (snd (snd e)) (fst (snd e)))"
proof -
  have 1: "findall delim_preamble (strip_matches delim_preamble False (join [newline] lns)) = []"
    using remove_preambles_one_by_one [of "join [newline] lns"] by (simp add: findall_def)
  have 2: "\<forall>c \<in> set (started (run T self f lns)).
      \<exists>e \<in> set (tex_expr (strip_matches delim_preamble False (join [newline] lns))).
        call_doc c = document (run_preamble self lns) (snd (snd e)) (fst (snd e))"
    unfolding run_unfold
    using run_expressions_calls [of T "self\<lparr>tex_preamble := run_preamble self lns\<rparr>" f
        "strip_matches delim_preamble False (join [newline] lns)"]
    by simp
  from 1 2 run_unfold [of T self f lns] show ?thesis
    unfolding run_preamble_def by simp
qed

theorem preamble_regions_absorbed_witness:
  "findall delim_preamble (join [newline] xcolor_doc) = [[bslash] @ ''usepackage{xcolor}''] \<and>
   strip_matches delim_preamble False (join [newline] xcolor_doc) = [newline] @ ''%a%'' \<and>
   started (run example_tools (init Missing Map.empty) Missing xcolor_doc) =
     [Latex (base_preamble @ [bslash] @ ''usepackage{xcolor}'' @ [newline] @
        [newline, bslash] @ ''begin{document}'' @ [newline] @ ''a'' @ [newline, bslash] @ ''end{document}''),
      Dvipng (base_preamble @ [bslash] @ ''usepackage{xcolor}'' @ [newline] @
        [newline, bslash] @ ''begin{document}'' @ [newline] @ ''a'' @ [newline, bslash] @ ''end{document}'')] \<and>
   outcome (run example_tools (init Missing Map.empty) Missing xcolor_doc) =
     Inr [[], IMG_EXPR ''0cc175b9c0f1b6a831c399e269772661'' ''0cc175b9c0f1b6a831c399e269772661_1'' ''iVBORw0KGgo='']"
proof -
  have 1: "findall delim_preamble (join [newline] xcolor_doc) = [[bslash] @ ''usepackage{xcolor}'']"
    by code_simp
  have 2: "strip_matches delim_preamble False (join [newline] xcolor_doc) = [newline] @ ''%a%''"
    by code_simp
  have 3: "tex_expr ([newline] @ ''%a%'') = [(delim_text, False, ''a'')]"
    by code_simp
  have 4: "started (run_expressions example_tools
       (init Missing Map.empty\<lparr>tex_preamble := tex_preamble (init Missing Map.empty) @ general_preamble (init Missing Map.empty) @
          concat (map (\<lambda>p. p @ [newline]) [[bslash] @ ''usepackage{xcolor}'']) @
          [newline, bslash] @ ''begin{document}'' @ [newline]\<rparr>)
       Missing ([newline] @ ''%a%'')) =
     [Latex (base_preamble @ [bslash] @ ''usepackage{xcolor}'' @ [newline] @
        [newline, bslash] @ ''begin{document}'' @ [newline] @ ''a'' @ [newline, bslash] @ ''end{document}''),
      Dvipng (base_preamble @ [bslash] @ ''usepackage{xcolor}'' @ [newline] @
        [newline, bslash] @ ''begin{document}'' @ [newline] @ ''a'' @ [newline, bslash] @ ''end{document}'')]"
    by code_simp
  have 5: "outcome (run_expressions example_tools
       (init Missing Map.empty\<lparr>tex_preamble := tex_preamble (init Missing Map.empty) @ general_preamble (init Missing Map.empty) @
          concat (map (\<lambda>p. p @ [newline]) [[bslash] @ ''usepackage{xcolor}'']) @
          [newline, bslash] @ ''begin{document}'' @ [newline]\<rparr>)
       Missing ([newline] @ ''%a%'')) =
     Inr [[], IMG_EXPR ''0cc175b9c0f1b6a831c399e269772661'' ''0cc175b9c0f1b6a831c399e269772661_1'' ''iVBORw0KGgo='']"
    by code_simp
  from preamble_regions_absorbed [of example_tools "init Missing Map.empty" Missing xcolor_doc]
  show ?thesis unfolding 1 2 using 4 5 by simp
qed

subsection \<open>C8\<close>

text \<open>
  Claim C8, as amended. The un-escaping is done only when at least one text-mode or
  math-mode expression was extracted: then the returned lines are the split of the
  un-escaped page left by the substitutions, and otherwise the page is returned as it
  is. The four replacements are made one after the other over the whole page. They
  amount to a single left-to-right pass, which turns each backslash-delimiter pair into
  the delimiter and each pair of backslashes into one backslash, on exactly those pages
  in which no run of backslashes of even, non-zero length stands directly before \<open>%%\<close>.
\<close>

theorem unescape_after_substitutions:
  "((unescape pg = unescape_once pg) \<longleftrightarrow> unescape_safe pg) \<and>
   (tex_expr p1 \<noteq> [] \<and> outcome (run_expressions T self f p1) = Inr out \<longrightarrow>
      out = split newline (unescape (page (fst (rewrite T (cached self) (tex_preamble self)
              (tex_expr p1) \<lparr>page = p1, new_cache = [], idn = 0, calls = []\<rparr>))))) \<and>
   (tex_expr p1 = [] \<longrightarrow> outcome (run_expressions T self f p1) = Inr (split newline p1))"
proof -
  have 1: "(unescape pg = unescape_once pg) \<longleftrightarrow> unescape_safe pg"
    by (rule unescape_iff)
  have 2: "tex_expr p1 \<noteq> [] \<and> outcome (run_expressions T self f p1) = Inr out \<longrightarrow>
      out = split newline (unescape (page (fst (rewrite T (cached self) (tex_preamble self)
              (tex_expr p1) \<lparr>page = p1, new_cache = [], idn = 0, calls = []\<rparr>))))"
    by (auto simp: run_expressions_def split: prod.splits option.splits sum.splits)
  have 3: "tex_expr p1 = [] \<longrightarrow> outcome (run_expressions T self f p1) = Inr (split newline p1)"
    by (simp add: run_expressions_def)
  from 1 2 3 show ?thesis by blast
qed

theorem unescape_after_substitutions_witness:
  "unescape_safe (''a'' @ [bslash] @ ''%b'' @ [bslash] @ delim_math @ ''c'' @ [bslash, bslash] @ ''d'' @ [bslash] @ ''%%'') \<and>
   unescape (''a'' @ [bslash] @ ''%b'' @ [bslash] @ delim_math @ ''c'' @ [bslash, bslash] @ ''d'' @ [bslash] @ ''%%'') =
     ''a%b'' @ delim_math @ ''c'' @ [bslash] @ ''d%%'' \<and>
   unescape_safe ([bslash, bslash] @ ''%x'') \<and>
   unescape ([bslash, bslash] @ ''%x'') = [bslash] @ ''%x'' \<and>
   unescape_safe ([bslash, bslash] @ delim_math @ ''x'') \<and>
   unescape ([bslash, bslash] @ delim_math @ ''x'') = [bslash] @ delim_math @ ''x'' \<and>
   unescape_safe ([bslash, bslash, bslash] @ ''%%'') \<and>
   unescape ([bslash, bslash, bslash] @ ''%%'') = [bslash] @ ''%%'' \<and>
   \<not> unescape_safe ([bslash, bslash] @ ''%%'') \<and>
   unescape ([bslash, bslash] @ ''%%'') \<noteq> unescape_once ([bslash, bslash] @ ''%%'') \<and>
   tex_expr (''%a% x'' @ [bslash] @ ''%y'') \<noteq> [] \<and>
   outcome (run_expressions example_tools (init Missing Map.empty) Missing (''%a% x'' @ [bslash] @ ''%y'')) =
     Inr [IMG_EXPR ''0cc175b9c0f1b6a831c399e269772661'' ''0cc175b9c0f1b6a831c399e269772661_1'' ''iVBORw0KGgo='' @ '' x%y'']"
proof -
  let ?p = "''a'' @ [bslash] @ ''%b'' @ [bslash] @ delim_math @ ''c'' @ [bslash, bslash] @ ''d'' @ [bslash] @ ''%%''"
  have 1: "unescape_safe ?p" by code_simp
  have 2: "unescape_once ?p = ''a%b'' @ delim_math @ ''c'' @ [bslash] @ ''d%%''" by code_simp
  have 3: "unescape_safe ([bslash, bslash] @ ''%x'')" by code_simp
  have 4: "unescape_once ([bslash, bslash] @ ''%x'') = [bslash] @ ''%x''" by code_simp
  have 5: "unescape_safe ([bslash, bslash] @ delim_math @ ''x'')" by code_simp
  have 6: "unescape_once ([bslash, bslash] @ delim_math @ ''x'') = [bslash] @ delim_math @ ''x''"
    by code_simp
  have 7: "unescape_safe ([bslash, bslash, bslash] @ ''%%'')" by code_simp
  have 8: "unescape_once ([bslash, bslash, bslash] @ ''%%'') = [bslash] @ ''%%''" by code_simp
  have 9: "\<not> unescape_safe ([bslash, bslash] @ ''%%'')" by code_simp
  have 10: "tex_expr (''%a% x'' @ [bslash] @ ''%y'') \<noteq> []" by code_simp
  have 11: "outcome (run_expressions example_tools (init Missing Map.empty) Missing (''%a% x'' @ [bslash] @ ''%y'')) =
     Inr [IMG_EXPR ''0cc175b9c0f1b6a831c399e269772661'' ''0cc175b9c0f1b6a831c399e269772661_1'' ''iVBORw0KGgo='' @ '' x%y'']"
    by code_simp
  note t = unescape_after_substitutions [where T = example_tools and self = "init Missing Map.empty"
      and f = Missing and ?p1.0 = "''%a% x'' @ [bslash] @ ''%y''"
      and out = "[IMG_EXPR ''0cc175b9c0f1b6a831c399e269772661'' ''0cc175b9c0f1b6a831c399e269772661_1'' ''iVBORw0KGgo='' @ '' x%y'']"]
  from t [where pg = ?p] 1 2
  have a: "unescape ?p = ''a%b'' @ delim_math @ ''c'' @ [bslash] @ ''d%%''" by metis
  from t [where pg = "[bslash, bslash] @ ''%x''"] 3 4
  have b: "unescape ([bslash, bslash] @ ''%x'') = [bslash] @ ''%x''" by metis
  from t [where pg = "[bslash, bslash] @ delim_math @ ''x''"] 5 6
  have c: "unescape ([bslash, bslash] @ delim_math @ ''x'') = [bslash] @ delim_math @ ''x''" by metis
  from t [where pg = "[bslash, bslash, bslash] @ ''%%''"] 7 8
  have d: "unescape ([bslash, bslash, bslash] @ ''%%'') = [bslash] @ ''%%''" by metis
  from t [where pg = "[bslash, bslash] @ ''%%''"] 9
  have e: "unescape ([bslash, bslash] @ ''%%'') \<noteq> unescape_once ([bslash, bslash] @ ''%%'')" by metis
  from 1 3 5 7 9 10 11 a b c d e show ?thesis by blast
qed

text \<open>
  The claim C8 as stated fails twice. A document without any expression keeps its
  escaped delimiter. And where two backslashes precede \<open>%%\<close>, the first replacement
  exposes a new escaped \<open>%\<close> to the second one: both backslashes are consumed and no
  literal backslash is left.
\<close>

theorem unescape_counterexample:
  "outcome (run example_tools (init Missing Map.empty) Missing [''a '' @ [bslash] @ ''% b'']) =
     Inr [''a '' @ [bslash] @ ''% b''] \<and>
   unescape ([bslash, bslash] @ ''%%'') = ''%%'' \<and>
   outcome (run example_tools (init Missing Map.empty) Missing [''%a% '' @ [bslash, bslash] @ ''%%'']) =
     Inr [IMG_EXPR ''0cc175b9c0f1b6a831c399e269772661'' ''0cc175b9c0f1b6a831c399e269772661_1'' ''iVBORw0KGgo='' @ '' %%'']"
proof -
  have 1: "outcome (run example_tools (init Missing Map.empty) Missing [''a '' @ [bslash] @ ''% b'']) =
     Inr [''a '' @ [bslash] @ ''% b'']"
    by code_simp
  have 2: "unescape ([bslash, bslash] @ ''%%'') = ''%%''"
    by code_simp
  have 3: "outcome (run example_tools (init Missing Map.empty) Missing [''%a% '' @ [bslash, bslash] @ ''%%'']) =
     Inr [IMG_EXPR ''0cc175b9c0f1b6a831c399e269772661'' ''0cc175b9c0f1b6a831c399e269772661_1'' ''iVBORw0KGgo='' @ '' %%'']"
    by code_simp
  from 1 2 3 show ?thesis by blast
qed

subsection \<open>C9\<close>

text \<open>
  Claim C9. \<open>__init__\<close> gives an instance for every state of the cache file. A missing or
  not openable file leaves the dict as it was. In a readable file, a line that does not
  split into exactly two pieces raises \<open>ValueError\<close> inside the \<open>try\<close>: loading stops there,
  the exception is dropped, and the entries of the well-formed lines before it are in
  the dict. Without such a line all entries are loaded. The lines are those that a text
  file gives: a carriage return, alone or before a line feed, ends a line like a line
  feed and is not part of the value.
\<close>

theorem cache_load_tolerates_bad_files:
  "cached (init Missing c) = c \<and> cached (init Denied c) = c \<and>
   ((\<forall>l \<in> set (readlines s). well_formed l) \<longrightarrow>
      load_cache (Text s) c = (None, store_lines (readlines s) c) \<and>
      cached (init (Text s) c) = store_lines (readlines s) c) \<and>
   (readlines s = ls @ bad # rest \<and> (\<forall>l \<in> set ls. well_formed l) \<and> \<not> well_formed bad \<longrightarrow>
      load_cache (Text s) c = (Some ValueError, store_lines ls c) \<and>
      cached (init (Text s) c) = store_lines ls c)"
proof -
  have 1: "cached (init Missing c) = c \<and> cached (init Denied c) = c"
    by (simp add: init_def load_cache_def)
  have 2: "load_cache (Text s) c = (None, store_lines (readlines s) c)"
    if "\<forall>l \<in> set (readlines s). well_formed l"
    using load_lines_well_formed [OF that, of "[]" c] by (simp add: load_cache_def)
  have 3: "load_cache (Text s) c = (Some ValueError, store_lines ls c)"
    if "readlines s = ls @ bad # rest" "\<forall>l \<in> set ls. well_formed l" "\<not> well_formed bad"
    using load_lines_well_formed [OF that(2), of "bad # rest" c] load_lines_malformed [OF that(3)] that(1)
    by (simp add: load_cache_def)
  from 1 2 3 show ?thesis by (simp add: init_def)
qed

theorem cache_load_tolerates_bad_files_witness:
  "readlines cr_bad = [''k1 v1'' @ [newline]] @ (''bad'' @ [newline]) # [''k2 v2''] \<and>
   well_formed (''k1 v1'' @ [newline]) \<and> \<not> well_formed (''bad'' @ [newline]) \<and>
   load_cache (Text cr_bad) Map.empty = (Some ValueError, [''k1'' \<mapsto> ''v1'']) \<and>
   cached (init (Text cr_bad) Map.empty) ''k1'' = Some ''v1'' \<and>
   cached (init (Text cr_bad) Map.empty) ''k2'' = None \<and>
   readlines crlf_two = [''k1 v1'' @ [newline], ''k2 v2'' @ [newline]] \<and>
   well_formed (''k2 v2'' @ [newline]) \<and>
   load_cache (Text crlf_two) Map.empty = (None, [''k1'' \<mapsto> ''v1'', ''k2'' \<mapsto> ''v2'']) \<and>
   cached (init (Text crlf_two) Map.empty) ''k1'' = Some ''v1'' \<and>
   cached (init (Text crlf_two) Map.empty) ''k2'' = Some ''v2''"
proof -
  have r: "readlines cr_bad = [''k1 v1'' @ [newline]] @ (''bad'' @ [newline]) # [''k2 v2'']"
    by (simp add: readlines_def cr_bad_def)
  have w1: "well_formed (''k1 v1'' @ [newline])"
    by (simp add: well_formed_def strip_nl_def split_def)
  have w2: "well_formed (''k2 v2'' @ [newline])"
    by (simp add: well_formed_def strip_nl_def split_def)
  have b: "\<not> well_formed (''bad'' @ [newline])"
    by (simp add: well_formed_def strip_nl_def split_def)
  have r2: "readlines crlf_two = [''k1 v1'' @ [newline], ''k2 v2'' @ [newline]]"
    by (simp add: readlines_def crlf_two_def)
  have s1: "store_lines [''k1 v1'' @ [newline]] Map.empty = [''k1'' \<mapsto> ''v1'']"
    by (simp add: store_lines_def entry_key_def entry_val_def strip_nl_def split_def)
  have s2: "store_lines [''k1 v1'' @ [newline], ''k2 v2'' @ [newline]] Map.empty =
      [''k1'' \<mapsto> ''v1'', ''k2'' \<mapsto> ''v2'']"
    by (simp add: store_lines_def entry_key_def entry_val_def strip_nl_def split_def)
  from cache_load_tolerates_bad_files
    [of Map.empty cr_bad "[''k1 v1'' @ [newline]]" "''bad'' @ [newline]" "[''k2 v2'']"] r w1 b s1
  have a: "load_cache (Text cr_bad) Map.empty = (Some ValueError, [''k1'' \<mapsto> ''v1''])"
    "cached (init (Text cr_bad) Map.empty) = [''k1'' \<mapsto> ''v1'']"
    by simp_all
  from cache_load_tolerates_bad_files [of Map.empty crlf_two "[]" "[]" "[]"] r2 w1 w2 s2
  have c: "load_cache (Text crlf_two) Map.empty = (None, [''k1'' \<mapsto> ''v1'', ''k2'' \<mapsto> ''v2''])"
    "cached (init (Text crlf_two) Map.empty) = [''k1'' \<mapsto> ''v1'', ''k2'' \<mapsto> ''v2'']"
    by simp_all
  from a(2) have a1: "cached (init (Text cr_bad) Map.empty) ''k1'' = Some ''v1''"
    "cached (init (Text cr_bad) Map.empty) ''k2'' = None" by simp_all
  from c(2) have c1: "cached (init (Text crlf_two) Map.empty) ''k1'' = Some ''v1''"
    "cached (init (Text crlf_two) Map.empty) ''k2'' = Some ''v2''" by simp_all
  from r w1 w2 b r2 a(1) c(1) a1 c1 show ?thesis by blast
qed

subsection \<open>C10\<close>

text \<open>
  Claim C10. \<open>run\<close> never resets \<open>tex_preamble\<close>: whatever way the call ends, the instance
  keeps the old preamble extended by the configured extra preamble, the fragments of
  this document and the \<open>begin{document}\<close> line; so the preamble grows strictly with
  every call, and the preamble of a later call on the same instance strictly extends
  the one of the call before.
\<close>

theorem preamble_accumulates_across_runs:
  "tex_preamble (instance_after (run T self f lns)) =
     tex_preamble self @ general_preamble self @
     concat (map (\<lambda>p. p @ [newline]) (findall delim_preamble (join [newline] lns))) @
     [newline, bslash] @ ''begin{document}'' @ [newline] \<and>
   general_preamble (instance_after (run T self f lns)) = general_preamble self \<and>
   strict_prefix (tex_preamble self) (tex_preamble (instance_after (run T self f lns))) \<and>
   strict_prefix (tex_preamble (instance_after (run T self f lns)))
     (tex_preamble (instance_after (run T' (instance_after (run T self f lns)) f' lns')))"
proof -
  have sp: "\<And>a b. b \<noteq> [] \<Longrightarrow> strict_prefix a (a @ b)"
    by (simp add: strict_prefix_def)
  have 1: "\<And>T self f lns. strict_prefix (tex_preamble self) (tex_preamble (instance_after (run T self f lns)))"
    unfolding run_instance_after run_preamble_def by (simp add: sp)
  show ?thesis
    using 1 [of self T f lns] 1 [of "instance_after (run T self f lns)" T' f' lns']
    by (simp add: run_instance_after run_preamble_def)
qed

end
